theory Spec2Isabelle
  imports Main "HOL-Library.Word" "HOL-Library.Multiset"
begin

unbundle bit_operations_syntax

section \<open>Model of \<^verbatim>\<open>src/nvidia/src/lib/base_utils.c\<close>\<close>

text \<open>
  The C types: \<^verbatim>\<open>NvU32\<close> is \<^typ>\<open>32 word\<close>, \<^verbatim>\<open>NvU64\<close> is \<^typ>\<open>64 word\<close>,
  a byte is \<^typ>\<open>8 word\<close>, \<^verbatim>\<open>NvBool\<close> is \<^typ>\<open>bool\<close>.  Arithmetic on words wraps
  around as the C arithmetic on unsigned integers does.  An array handed over by
  pointer is a list; an access outside the list is the value \<open>Inl OutOfBounds\<close>, a
  failed \<^verbatim>\<open>NV_ASSERT\<close> is \<open>Inl AssertFailed\<close>.
\<close>

type_synonym byte = "8 word"

datatype fault = OutOfBounds | AssertFailed

lemma unat_plus_one_less:
  fixes i :: "'a::len word"
  shows "i < c \<Longrightarrow> unat (i + 1) = Suc (unat i)"
  by unat_arith

subsection \<open>Bit fields\<close>

text \<open>
  Modelled from the spec: \<^verbatim>\<open>NVBIT\<close>, \<^verbatim>\<open>LOWESTBITIDX_32\<close> and \<^verbatim>\<open>HIGHESTBITIDX_32\<close>
  are macros of a header that is not part of the sources.  \<^verbatim>\<open>NVBIT(b)\<close> is the mask
  \<^verbatim>\<open>1 << b\<close> (the documentation of the functions below writes the test as
  \<^verbatim>\<open>pBitField[X/32] & (1<<(X%32))\<close>); the two index macros replace a non-zero word
  by the index of its lowest, respectively highest, set bit.
\<close>

definition NVBIT :: "32 word \<Rightarrow> 32 word" where
  "NVBIT b = push_bit (unat b) 1"









definition nvBitFieldTest :: "32 word list \<Rightarrow> 32 word \<Rightarrow> 32 word \<Rightarrow> fault + bool" where
  "nvBitFieldTest pBitField cnt b =
    (if b < cnt * 32 then
       (if unat (b div 32) < length pBitField
        then Inr (pBitField ! unat (b div 32) AND NVBIT (b mod 32) \<noteq> 0)
        else Inl OutOfBounds)
     else Inr False)"

definition nvBitFieldSet :: "32 word list \<Rightarrow> 32 word \<Rightarrow> 32 word \<Rightarrow> bool \<Rightarrow> fault + 32 word list" where
  "nvBitFieldSet pBitField cnt b v =
    (if \<not> b < cnt * 32 then Inl AssertFailed
     else if unat (b div 32) < length pBitField
     then Inr (pBitField[unat (b div 32) :=
            (pBitField ! unat (b div 32) AND NOT (NVBIT (b mod 32)))
              OR (if v then NVBIT (b mod 32) else 0)])
     else Inl OutOfBounds)"

text \<open>The field as a sequence of bits: bit \<open>X\<close> is bit \<open>X mod 32\<close> of word \<open>X div 32\<close>.\<close>

definition field_bit :: "32 word list \<Rightarrow> nat \<Rightarrow> bool" where
  "field_bit f X = bit (f ! (X div 32)) (X mod 32)"


subsection \<open>Merge sort\<close>

text \<open>
  \<^verbatim>\<open>nvMergeSort(array, n, tempBuffer, size, less)\<close>.  The two buffers are lists of bytes.
  The parameters \<^verbatim>\<open>size\<close> and \<^verbatim>\<open>less\<close> are written \<open>sz\<close> and \<open>lt\<close> (the source's names are
  constants of HOL).  The comparator reads the \<open>sz\<close> bytes behind each of its two
  pointers and is a function of these two byte sequences.

  \<^verbatim>\<open>EL(n)\<close> is \<^verbatim>\<open>(char *) array + (n) * size\<close>: both factors are \<^verbatim>\<open>NvU32\<close>, so the product is
  computed modulo \<open>2^32\<close> before it is added to the pointer.
\<close>

definition EL :: "32 word \<Rightarrow> 32 word \<Rightarrow> nat" where
  "EL sz n = unat (n * sz)"

text \<open>Reading \<open>len\<close> bytes at offset \<open>off\<close> of a buffer, as the comparator does.\<close>

definition peek :: "byte list \<Rightarrow> nat \<Rightarrow> nat \<Rightarrow> fault + byte list" where
  "peek buf off len =
    (if off + len \<le> length buf then Inr (take len (drop off buf)) else Inl OutOfBounds)"

text \<open>
  Modelled from the spec: \<^verbatim>\<open>portMemCopy\<close> is declared in \<^verbatim>\<open>os/os.h\<close>, which is not part of
  the sources.  \<^verbatim>\<open>portMemCopy(dest, size, src, size)\<close> is the raw copy of \<open>len\<close> bytes from
  offset \<open>soff\<close> of the buffer \<open>src\<close> to offset \<open>doff\<close> of the buffer \<open>dst\<close>; it returns the
  new contents of \<open>dst\<close>.
\<close>

definition portMemCopy :: "byte list \<Rightarrow> nat \<Rightarrow> byte list \<Rightarrow> nat \<Rightarrow> nat \<Rightarrow> fault + byte list" where
  "portMemCopy dst doff src soff len =
    (if soff + len \<le> length src \<and> doff + len \<le> length dst
     then Inr (take doff dst @ take len (drop soff src) @ drop (doff + len) dst)
     else Inl OutOfBounds)"

text \<open>
  The \<^verbatim>\<open>while (1)\<close> loop of the merge.  It leaves by one of its two \<^verbatim>\<open>break\<close>s; the
  pointer \<^verbatim>\<open>dest\<close> is the offset \<open>dest\<close> into \<^verbatim>\<open>mergeArray\<close>.  The loop returns for every
  input, also where an index wraps around: \<open>steps_left\<close> bounds the increments left.
\<close>

definition steps_left :: "32 word \<Rightarrow> 32 word \<Rightarrow> nat" where
  "steps_left k kMax = (if k < kMax then unat kMax - unat k else unat kMax + 1)"

lemma steps_left_decreases: "k + 1 < kMax \<Longrightarrow> steps_left (k + 1) kMax < steps_left k kMax"
proof (cases "k < kMax")
  case True
  assume a: "k + 1 < kMax"
  have "unat (k + 1) = Suc (unat k)" using True by (rule unat_plus_one_less)
  then show ?thesis using True a by (simp add: steps_left_def word_less_nat_alt)
next
  case False
  assume a: "k + 1 < kMax"
  then show ?thesis using False by (simp add: steps_left_def word_less_nat_alt)
qed

function merge_loop ::
  "32 word \<Rightarrow> (byte list \<Rightarrow> byte list \<Rightarrow> bool) \<Rightarrow> byte list \<Rightarrow> 32 word \<Rightarrow> 32 word
    \<Rightarrow> 32 word \<Rightarrow> 32 word \<Rightarrow> nat \<Rightarrow> byte list \<Rightarrow> fault + (32 word \<times> 32 word \<times> nat \<times> byte list)" where
  "merge_loop sz lt array loMax hiMax lo hi dest mergeArray =
    (case peek array (EL sz lo) (unat sz) of Inl e \<Rightarrow> Inl e | Inr a \<Rightarrow>
    (case peek array (EL sz hi) (unat sz) of Inl e \<Rightarrow> Inl e | Inr b \<Rightarrow>
     if lt a b then
       (case portMemCopy mergeArray dest array (EL sz lo) (unat sz) of Inl e \<Rightarrow> Inl e
        | Inr mergeArray' \<Rightarrow>
            if lo + 1 \<ge> loMax then Inr (lo + 1, hi, dest + unat sz, mergeArray')
            else merge_loop sz lt array loMax hiMax (lo + 1) hi (dest + unat sz) mergeArray')
     else
       (case portMemCopy mergeArray dest array (EL sz hi) (unat sz) of Inl e \<Rightarrow> Inl e
        | Inr mergeArray' \<Rightarrow>
            if hi + 1 \<ge> hiMax then Inr (lo, hi + 1, dest + unat sz, mergeArray')
            else merge_loop sz lt array loMax hiMax lo (hi + 1) (dest + unat sz) mergeArray')))"
  by pat_completeness auto
termination
  by (relation "measure (\<lambda>(sz, lt, array, loMax, hiMax, lo, hi, dest, mergeArray).
        steps_left lo loMax + steps_left hi hiMax)")
     (auto simp: steps_left_decreases not_le)

declare merge_loop.simps [simp del]

text \<open>
  The two loops that copy the remaining items, \<^verbatim>\<open>while (lo < loMax)\<close> and
  \<^verbatim>\<open>while (hi < hiMax)\<close>, have the same body: \<open>k\<close> is \<^verbatim>\<open>lo\<close> or \<^verbatim>\<open>hi\<close>.
\<close>

function copy_remaining ::
  "32 word \<Rightarrow> byte list \<Rightarrow> 32 word \<Rightarrow> 32 word \<Rightarrow> nat \<Rightarrow> byte list \<Rightarrow> fault + (nat \<times> byte list)" where
  "copy_remaining sz array kMax k dest mergeArray =
    (if k < kMax then
       (case portMemCopy mergeArray dest array (EL sz k) (unat sz) of Inl e \<Rightarrow> Inl e
        | Inr mergeArray' \<Rightarrow> copy_remaining sz array kMax (k + 1) (dest + unat sz) mergeArray')
     else Inr (dest, mergeArray))"
  by pat_completeness auto
termination
  by (relation "measure (\<lambda>(sz, array, kMax, k, dest, mergeArray). unat kMax - unat k)")
     (auto simp: unat_plus_one_less word_less_nat_alt)

declare copy_remaining.simps [simp del]

text \<open>
  The body of the inner \<^verbatim>\<open>for\<close> loop.  \<^verbatim>\<open>NV_MIN\<close> is the minimum; the length of the
  copy back is \<^verbatim>\<open>(NvU32)(dest - mergeArray)\<close>, the offset \<open>dest\<close> cut to 32 bits.
\<close>

definition merge_block ::
  "32 word \<Rightarrow> (byte list \<Rightarrow> byte list \<Rightarrow> bool) \<Rightarrow> 32 word \<Rightarrow> 32 word \<Rightarrow> 32 word
    \<Rightarrow> byte list \<Rightarrow> byte list \<Rightarrow> fault + (byte list \<times> byte list)" where
  "merge_block sz lt n m i array mergeArray =
    (let loMin = i; lo = loMin; loMax = i + m; hi = i + m; hiMax = min n (i + 2 * m);
         dest = 0
     in case merge_loop sz lt array loMax hiMax lo hi dest mergeArray of Inl e \<Rightarrow> Inl e
        | Inr (lo, hi, dest, mergeArray) \<Rightarrow>
       (case copy_remaining sz array loMax lo dest mergeArray of Inl e \<Rightarrow> Inl e
        | Inr (dest, mergeArray) \<Rightarrow>
       (case copy_remaining sz array hiMax hi dest mergeArray of Inl e \<Rightarrow> Inl e
        | Inr (dest, mergeArray) \<Rightarrow>
       (case portMemCopy array (EL sz loMin) mergeArray 0 (unat (of_nat dest :: 32 word)) of
          Inl e \<Rightarrow> Inl e
        | Inr array' \<Rightarrow> Inr (array', mergeArray)))))"

text \<open>
  The inner loop \<^verbatim>\<open>for (i = 0; i < (n - m); i += 2 * m)\<close> and the outer loop
  \<^verbatim>\<open>for (m = 1; m <= n; m *= 2)\<close>.  Neither has a bound that survives the wrap-around of
  \<open>m\<close> or \<open>i\<close>, so they are partial functions: \<open>None\<close> is a run that does not return.
\<close>

partial_function (option) block_loop ::
  "32 word \<Rightarrow> (byte list \<Rightarrow> byte list \<Rightarrow> bool) \<Rightarrow> 32 word \<Rightarrow> 32 word \<Rightarrow> 32 word
    \<Rightarrow> byte list \<Rightarrow> byte list \<Rightarrow> (fault + (byte list \<times> byte list)) option" where
  "block_loop sz lt n m i array mergeArray =
    (if i < n - m then
       (case merge_block sz lt n m i array mergeArray of Inl e \<Rightarrow> Some (Inl e)
        | Inr (array', mergeArray') \<Rightarrow> block_loop sz lt n m (i + 2 * m) array' mergeArray')
     else Some (Inr (array, mergeArray)))"

declare block_loop.simps [code]

partial_function (option) pass_loop ::
  "32 word \<Rightarrow> (byte list \<Rightarrow> byte list \<Rightarrow> bool) \<Rightarrow> 32 word \<Rightarrow> 32 word
    \<Rightarrow> byte list \<Rightarrow> byte list \<Rightarrow> (fault + (byte list \<times> byte list)) option" where
  "pass_loop sz lt n m array mergeArray =
    (if m \<le> n then
       (case block_loop sz lt n m 0 array mergeArray of None \<Rightarrow> None
        | Some (Inl e) \<Rightarrow> Some (Inl e)
        | Some (Inr (array', mergeArray')) \<Rightarrow> pass_loop sz lt n (m * 2) array' mergeArray')
     else Some (Inr (array, mergeArray)))"

declare pass_loop.simps [code]

definition nvMergeSort ::
  "byte list \<Rightarrow> 32 word \<Rightarrow> byte list \<Rightarrow> 32 word \<Rightarrow> (byte list \<Rightarrow> byte list \<Rightarrow> bool)
    \<Rightarrow> (fault + (byte list \<times> byte list)) option" where
  "nvMergeSort array n tempBuffer sz lt = pass_loop sz lt n 1 array tempBuffer"

text \<open>
  The array as the sequence of its \<open>N\<close> elements of \<open>S\<close> bytes each, and what the claims
  say about it: the order the comparator defines on a set of elements, and an array in
  ascending order (no adjacent pair \<open>(a[i], a[i+1])\<close> with \<open>less(a[i+1], a[i])\<close>).
\<close>

definition elems :: "nat \<Rightarrow> nat \<Rightarrow> byte list \<Rightarrow> byte list list" where
  "elems S N bytes = map (\<lambda>k. take S (drop (k * S) bytes)) [0..<N]"

definition strict_total_order_on :: "'a set \<Rightarrow> ('a \<Rightarrow> 'a \<Rightarrow> bool) \<Rightarrow> bool" where
  "strict_total_order_on A lt \<longleftrightarrow>
     (\<forall>a\<in>A. \<not> lt a a)
   \<and> (\<forall>a\<in>A. \<forall>b\<in>A. \<forall>c\<in>A. lt a b \<longrightarrow> lt b c \<longrightarrow> lt a c)
   \<and> (\<forall>a\<in>A. \<forall>b\<in>A. a \<noteq> b \<longrightarrow> lt a b \<or> lt b a)"

definition ascending :: "('a \<Rightarrow> 'a \<Rightarrow> bool) \<Rightarrow> 'a list \<Rightarrow> bool" where
  "ascending lt es \<longleftrightarrow> (\<forall>i. Suc i < length es \<longrightarrow> \<not> lt (es ! Suc i) (es ! i))"

subsection \<open>Most significant bit\<close>

definition nvMsb64 :: "64 word \<Rightarrow> 64 word" where
  "nvMsb64 x0 =
    (let x = x0 OR drop_bit 1 x0;
         x = x OR drop_bit 2 x;
         x = x OR drop_bit 4 x;
         x = x OR drop_bit 8 x;
         x = x OR drop_bit 16 x;
         x = x OR drop_bit 32 x
     in x AND NOT (drop_bit 1 x))"

subsection \<open>Unsigned integer to string\<close>

text \<open>
  \<^verbatim>\<open>nvU32ToStr\<close>.  The local buffer \<^verbatim>\<open>tmp[33]\<close> is the list \<open>tmp\<close> of the bytes written so
  far, the pointer \<^verbatim>\<open>tp\<close> is its length, and a write past the 33 bytes is a fault.  The
  variable \<^verbatim>\<open>i\<close> is an \<^verbatim>\<open>NvS32\<close>: its comparison is the signed one, and \<^verbatim>\<open>'0'\<close> is 48,
  \<^verbatim>\<open>'a'\<close> is 97.  The division is reached only behind the two checks of the base.
  The caller's buffer is the list \<open>string\<close>; the result \<open>Inr None\<close> is the null pointer,
  \<open>Inr (Some s)\<close> is the pointer \<^verbatim>\<open>string\<close> with the buffer's contents \<open>s\<close>.
\<close>

function U32ToStr_digits :: "32 word \<Rightarrow> 32 word \<Rightarrow> char list \<Rightarrow> fault + char list" where
  "U32ToStr_digits base v tmp =
    (if v \<noteq> 0 \<or> tmp = [] then
       (if length tmp < 33 then
          (let i = v mod base;
               v' = v div base;
               extra = (if i <s 10 then 48 else 97 - 10)
           in U32ToStr_digits base v' (tmp @ [char_of (sint i + extra)]))
        else Inl OutOfBounds)
     else Inr tmp)"
  by pat_completeness auto
termination
  by (relation "measure (\<lambda>(base, v, tmp). 33 - length tmp)") auto

declare U32ToStr_digits.simps [simp del]

text \<open>The second loop, \<^verbatim>\<open>while (tp > tmp) { tp--; *sp = *tp; sp++; }\<close>.\<close>

fun U32ToStr_copy :: "char list \<Rightarrow> nat \<Rightarrow> char list \<Rightarrow> nat \<Rightarrow> fault + char list \<times> nat" where
  "U32ToStr_copy tmp 0 string sp = Inr (string, sp)"
| "U32ToStr_copy tmp (Suc tp) string sp =
    (if sp < length string then U32ToStr_copy tmp tp (string[sp := tmp ! tp]) (Suc sp)
     else Inl OutOfBounds)"

definition nvU32ToStr :: "32 word \<Rightarrow> char list \<Rightarrow> 32 word \<Rightarrow> fault + char list option" where
  "nvU32ToStr val string base =
    (if base > 36 then Inr None
     else if base \<le> 1 then Inr None
     else case U32ToStr_digits base val [] of
       Inl e \<Rightarrow> Inl e
     | Inr tmp \<Rightarrow>
        (case U32ToStr_copy tmp (length tmp) string 0 of
           Inl e \<Rightarrow> Inl e
         | Inr (string', sp) \<Rightarrow>
            if sp < length string' then Inr (Some (string'[sp := CHR 0x00]))
            else Inl OutOfBounds))"

text \<open>The digits of the spec: \<^verbatim>\<open>0-9\<close>, then \<^verbatim>\<open>a-z\<close>.\<close>

definition digit_chars :: "char list" where
  "digit_chars = ''0123456789abcdefghijklmnopqrstuvwxyz''"

text \<open>
  The digits of \<open>n\<close> in base \<open>b\<close>, least significant first, as a list of numbers: what
  the first loop computes.  It is used in the proofs only.
\<close>

function lsd_digits :: "nat \<Rightarrow> nat \<Rightarrow> nat list" where
  "lsd_digits b n = (if n < b \<or> b < 2 then [n] else (n mod b) # lsd_digits b (n div b))"
  by pat_completeness auto
termination
  by (relation "measure snd") auto

declare lsd_digits.simps [simp del]

section \<open>The most significant bit\<close>

lemma smear_step:
  fixes x y :: "'a::len word"
  assumes "\<And>k. bit y k \<longleftrightarrow> (\<exists>j. k \<le> j \<and> j < k + a \<and> bit x j)"
  shows "bit (y OR drop_bit a y) k \<longleftrightarrow> (\<exists>j. k \<le> j \<and> j < k + 2 * a \<and> bit x j)"
proof -
  have "bit (y OR drop_bit a y) k \<longleftrightarrow> bit y k \<or> bit y (k + a)"
    by (simp add: bit_or_iff bit_drop_bit_eq add.commute)
  also have "\<dots> \<longleftrightarrow> (\<exists>j. k \<le> j \<and> j < k + a \<and> bit x j) \<or> (\<exists>j. k + a \<le> j \<and> j < k + a + a \<and> bit x j)"
    by (simp only: assms)
  also have "\<dots> \<longleftrightarrow> (\<exists>j. k \<le> j \<and> j < k + 2 * a \<and> bit x j)"
    by (metis add_leD1 linorder_not_le mult_2 add.assoc)
  finally show ?thesis .
qed

lemma bit_nvMsb64:
  "bit (nvMsb64 x) k \<longleftrightarrow> bit x k \<and> (\<forall>j>k. \<not> bit x j)"
proof -
  define y1 where "y1 = x OR drop_bit 1 x"
  define y2 where "y2 = y1 OR drop_bit 2 y1"
  define y3 where "y3 = y2 OR drop_bit 4 y2"
  define y4 where "y4 = y3 OR drop_bit 8 y3"
  define y5 where "y5 = y4 OR drop_bit 16 y4"
  define y6 where "y6 = y5 OR drop_bit 32 y5"
  have b0: "\<And>k. bit x k \<longleftrightarrow> (\<exists>j. k \<le> j \<and> j < k + 1 \<and> bit x j)"
    by (metis Suc_eq_plus1 le_refl less_Suc_eq_le le_antisym)
  have b1: "\<And>k. bit y1 k \<longleftrightarrow> (\<exists>j. k \<le> j \<and> j < k + 2 \<and> bit x j)"
    unfolding y1_def using smear_step [where a = 1, OF b0] by simp
  have b2: "\<And>k. bit y2 k \<longleftrightarrow> (\<exists>j. k \<le> j \<and> j < k + 4 \<and> bit x j)"
    unfolding y2_def using smear_step [where a = 2, OF b1] by simp
  have b3: "\<And>k. bit y3 k \<longleftrightarrow> (\<exists>j. k \<le> j \<and> j < k + 8 \<and> bit x j)"
    unfolding y3_def using smear_step [where a = 4, OF b2] by simp
  have b4: "\<And>k. bit y4 k \<longleftrightarrow> (\<exists>j. k \<le> j \<and> j < k + 16 \<and> bit x j)"
    unfolding y4_def using smear_step [where a = 8, OF b3] by simp
  have b5: "\<And>k. bit y5 k \<longleftrightarrow> (\<exists>j. k \<le> j \<and> j < k + 32 \<and> bit x j)"
    unfolding y5_def using smear_step [where a = 16, OF b4] by simp
  have b6: "\<And>k. bit y6 k \<longleftrightarrow> (\<exists>j. k \<le> j \<and> j < k + 64 \<and> bit x j)"
    unfolding y6_def using smear_step [where a = 32, OF b5] by simp
  have len: "\<And>j. bit x j \<Longrightarrow> j < 64"
    using bit_imp_le_length [of x] by simp
  have b7: "\<And>k. bit y6 k \<longleftrightarrow> (\<exists>j\<ge>k. bit x j)"
    unfolding b6 using len by (meson trans_less_add2)
  have r: "nvMsb64 x = y6 AND NOT (drop_bit 1 y6)"
    unfolding nvMsb64_def Let_def y1_def y2_def y3_def y4_def y5_def y6_def ..
  have "bit (nvMsb64 x) k \<longleftrightarrow> bit y6 k \<and> \<not> bit y6 (Suc k)"
    unfolding r using bit_imp_le_length [of y6 k]
    by (auto simp add: bit_and_iff bit_not_iff bit_drop_bit_eq)
  also have "\<dots> \<longleftrightarrow> bit x k \<and> (\<forall>j>k. \<not> bit x j)"
    unfolding b7 by (metis Suc_le_eq le_eq_less_or_eq)
  finally show ?thesis .
qed

lemma bit_imp_two_power_le:
  fixes x :: "'a::len word"
  assumes "bit x k" shows "2 ^ k \<le> unat x"
proof -
  have "bit (unat x) k" using assms by (simp add: bit_unsigned_iff)
  then have "odd (unat x div 2 ^ k)" by (simp add: bit_iff_odd)
  then have "unat x div 2 ^ k \<noteq> 0" by (metis even_zero)
  then show ?thesis by (metis div_less linorder_not_le)
qed

lemma high_bits_clear_less:
  fixes x :: "'a::len word"
  assumes "\<forall>j>k. \<not> bit x j" shows "unat x < 2 ^ Suc k"
proof -
  have "take_bit (Suc k) x = x"
    by (rule bit_eqI) (use assms in \<open>auto simp add: bit_take_bit_iff less_Suc_eq_le intro: leI\<close>)
  then have "unat x = take_bit (Suc k) (unat x)"
    by (metis unsigned_take_bit_eq)
  then show ?thesis by (metis take_bit_nat_less_exp)
qed

lemma nonzero_has_top_bit:
  fixes x :: "'a::len word"
  assumes "x \<noteq> 0" shows "\<exists>k. bit x k \<and> (\<forall>j>k. \<not> bit x j)"
proof -
  obtain j where j: "bit x j" using assms by (metis bit_eqI bit_0_eq bot_apply bot_bool_def)
  have bnd: "\<And>y. bit x y \<Longrightarrow> y \<le> LENGTH('a)" using bit_imp_le_length [of x] by (simp add: less_imp_le)
  let ?g = "GREATEST k. bit x k"
  have "bit x ?g" using j bnd by (rule GreatestI_nat)
  moreover have "\<forall>i>?g. \<not> bit x i" using Greatest_le_nat [of "bit x" _ "LENGTH('a)"] bnd by (meson not_le)
  ultimately show ?thesis by blast
qed

text \<open>
  Claim C9.  \<^verbatim>\<open>nvMsb64\<close> keeps only the most significant set bit of its argument:
  \<open>nvMsb64 0 = 0\<close>, \<open>nvMsb64 0b0110 = 0b0100\<close>, and for \<open>x \<noteq> 0\<close> the result is the
  power of two \<open>2 ^ k\<close> with \<open>2 ^ k \<le> x < 2 ^ (k + 1)\<close>, that is \<open>k = floor (log2 x)\<close>.
\<close>

theorem nvMsb64_spec:
  "nvMsb64 0 = 0 \<and> nvMsb64 6 = 4 \<and>
   (x \<noteq> 0 \<longrightarrow> (\<exists>k<64. nvMsb64 x = 2 ^ k \<and> 2 ^ k \<le> unat x \<and> unat x < 2 ^ (k + 1)))"
proof (intro conjI impI)
  show "nvMsb64 0 = 0" by (simp add: nvMsb64_def)
  show "nvMsb64 6 = 4" by (simp add: nvMsb64_def)
next
  assume "x \<noteq> 0"
  then obtain k where k: "bit x k" "\<forall>j>k. \<not> bit x j" using nonzero_has_top_bit by blast
  have k64: "k < 64" using bit_imp_le_length [OF k(1)] by simp
  have "nvMsb64 x = 2 ^ k"
  proof (rule bit_eqI)
    fix n
    show "bit (nvMsb64 x) n = bit (2 ^ k :: 64 word) n"
      unfolding bit_nvMsb64 using k k64 by (auto simp add: bit_exp_iff) (metis linorder_neqE_nat)+
  qed
  then show "\<exists>k<64. nvMsb64 x = 2 ^ k \<and> 2 ^ k \<le> unat x \<and> unat x < 2 ^ (k + 1)"
    using k64 bit_imp_two_power_le [OF k(1)] high_bits_clear_less [OF k(2)] by auto
qed

theorem nvMsb64_spec_witness:
  "(12::64 word) \<noteq> 0 \<and> (\<exists>k<64. nvMsb64 12 = 2 ^ k \<and> 2 ^ k \<le> unat (12::64 word) \<and> unat (12::64 word) < 2 ^ (k + 1))"
  using nvMsb64_spec [of 12] by simp
section \<open>Setting and testing a bit\<close>

lemma NVBIT_test: "b < 32 \<Longrightarrow> (w AND NVBIT b \<noteq> 0) \<longleftrightarrow> bit w (unat b)"
  by (simp add: NVBIT_def push_bit_of_1 and_exp_eq_0_iff_not_bit)

lemma mod32_less: "(b::32 word) mod 32 < 32"
  by (simp add: word_mod_less_divisor)

lemma bit_set_word:
  assumes "b < (32::32 word)"
  shows "bit ((w AND NOT (NVBIT b)) OR (if v then NVBIT b else 0)) k
         \<longleftrightarrow> (if k = unat b then v else bit w k)"
proof -
  have "unat b < 32" using assms by (simp add: word_less_nat_alt)
  then show ?thesis
    using bit_imp_le_length [of w k]
    by (auto simp add: NVBIT_def push_bit_of_1 bit_or_iff bit_and_iff bit_not_iff bit_exp_iff)
qed

lemma in_range_word_index:
  assumes "b < cnt * (32::32 word)"
  shows "unat (b div 32) < unat cnt"
proof -
  have "unat (cnt * 32) \<le> unat cnt * 32"
    by (simp add: unat_word_ariths)
  moreover have "unat b < unat (cnt * 32)" using assms by (simp add: word_less_nat_alt)
  ultimately show ?thesis by (simp add: unat_div)
qed

lemma word_div_mod_32_eq:
  fixes a b :: "32 word"
  assumes "a div 32 = b div 32" "a mod 32 = b mod 32" shows "a = b"
  by (metis assms div_mult_mod_eq)

text \<open>
  Claim C10, as stated for every index inside a field of \<open>count\<close> words, fails where
  \<open>count * 32\<close> wraps around.  In a field of \<open>2^27 + 1\<close> words the code compares the index
  with \<open>(2^27 + 1) * 32 mod 2^32 = 32\<close>: for bit 33, which lies inside the field,
  \<^verbatim>\<open>nvBitFieldSet\<close> fails its assertion and \<^verbatim>\<open>nvBitFieldTest\<close> returns false although the
  bit is set.
\<close>

theorem nvBitFieldSet_out_of_comparison_counterexample:
  "length (replicate 134217729 (0 :: 32 word)) = unat (134217729 :: 32 word)
   \<and> unat (33 :: 32 word) < 32 * unat (134217729 :: 32 word)
   \<and> nvBitFieldSet (replicate 134217729 0) 134217729 33 True = Inl AssertFailed
   \<and> length (0 # 2 # replicate 134217727 (0 :: 32 word)) = unat (134217729 :: 32 word)
   \<and> field_bit (0 # 2 # replicate 134217727 0) 33
   \<and> nvBitFieldTest (0 # 2 # replicate 134217727 0) 134217729 33 = Inr False"
  by (simp add: nvBitFieldSet_def nvBitFieldTest_def field_bit_def)

text \<open>
  Claim C10, amended.  For a bit field of \<open>cnt\<close> words and a bit index that is in range
  by the comparison of the code, \<open>b < cnt * 32\<close> with the product taken in 32 bits,
  \<^verbatim>\<open>nvBitFieldSet\<close> stores a field on which \<^verbatim>\<open>nvBitFieldTest\<close> returns \<open>v\<close> at \<open>b\<close>, returns
  what it returned before at every other index in range, and in which every word other
  than word \<open>b div 32\<close> is unchanged.  For \<open>cnt < 2^27\<close> the indices in range are exactly
  the indices of the bits of the field.
\<close>

theorem nvBitFieldSet_then_Test:
  assumes "length f = unat cnt" and "b < cnt * 32"
  shows "(\<exists>f'. nvBitFieldSet f cnt b v = Inr f' \<and> length f' = length f
          \<and> nvBitFieldTest f' cnt b = Inr v
          \<and> (\<forall>b'. b' < cnt * 32 \<and> b' \<noteq> b \<longrightarrow> nvBitFieldTest f' cnt b' = nvBitFieldTest f cnt b')
          \<and> (\<forall>k < length f. k \<noteq> unat (b div 32) \<longrightarrow> f' ! k = f ! k))
       \<and> (unat cnt < 2 ^ 27 \<longrightarrow> (\<forall>b'. (b' < cnt * 32) = (unat b' < 32 * unat cnt)))"
proof -
  let ?i = "unat (b div 32)"
  let ?w = "(f ! ?i AND NOT (NVBIT (b mod 32))) OR (if v then NVBIT (b mod 32) else 0)"
  have i: "?i < length f" using in_range_word_index [OF assms(2)] assms(1) by simp
  have set: "nvBitFieldSet f cnt b v = Inr (f[?i := ?w])"
    using assms(2) i by (simp add: nvBitFieldSet_def)
  have t1: "nvBitFieldTest (f[?i := ?w]) cnt b = Inr v"
    using assms(2) i by (simp add: nvBitFieldTest_def NVBIT_test mod32_less bit_set_word)
  have t2: "nvBitFieldTest (f[?i := ?w]) cnt b' = nvBitFieldTest f cnt b'"
    if b': "b' < cnt * 32" "b' \<noteq> b" for b'
  proof -
    have i': "unat (b' div 32) < length f" using in_range_word_index [OF b'(1)] assms(1) by simp
    show ?thesis
    proof (cases "b' div 32 = b div 32")
      case True
      then have "b' mod 32 \<noteq> b mod 32" using b'(2) word_div_mod_32_eq by blast
      then have "unat (b' mod 32) \<noteq> unat (b mod 32)" by (simp add: word_unat_eq_iff)
      then show ?thesis using True i b'(1)
        by (simp add: nvBitFieldTest_def NVBIT_test mod32_less bit_set_word)
    next
      case False
      then have "unat (b' div 32) \<noteq> ?i" by (simp add: word_unat_eq_iff)
      then show ?thesis using i' b'(1)
        by (simp add: nvBitFieldTest_def)
    qed
  qed
  have small: "unat cnt < 2 ^ 27 \<longrightarrow> (\<forall>b'. (b' < cnt * 32) = (unat b' < 32 * unat cnt))"
  proof (intro impI allI)
    fix b' :: "32 word"
    assume "unat cnt < 2 ^ 27"
    then have "unat cnt * unat (32 :: 32 word) < 2 ^ LENGTH(32)" by simp
    then have "unat (cnt * 32) = unat cnt * unat (32 :: 32 word)"
      by (simp only: unat_mult_lem)
    then show "(b' < cnt * 32) = (unat b' < 32 * unat cnt)"
      by (simp add: word_less_nat_alt mult.commute)
  qed
  have "\<exists>f'. nvBitFieldSet f cnt b v = Inr f' \<and> length f' = length f
          \<and> nvBitFieldTest f' cnt b = Inr v
          \<and> (\<forall>b'. b' < cnt * 32 \<and> b' \<noteq> b \<longrightarrow> nvBitFieldTest f' cnt b' = nvBitFieldTest f cnt b')
          \<and> (\<forall>k < length f. k \<noteq> unat (b div 32) \<longrightarrow> f' ! k = f ! k)"
    using set t1 t2 by simp
  then show ?thesis using small by (rule conjI)
qed

theorem nvBitFieldSet_then_Test_witness:
  "length [0, 5::32 word] = unat (2::32 word) \<and> (33::32 word) < 2 * 32 \<and>
   (\<exists>f'. nvBitFieldSet [0, 5] 2 33 True = Inr f' \<and> length f' = length [0, 5::32 word]
          \<and> nvBitFieldTest f' 2 33 = Inr True
          \<and> (\<forall>b'. b' < 2 * 32 \<and> b' \<noteq> 33 \<longrightarrow> nvBitFieldTest f' 2 b' = nvBitFieldTest [0, 5] 2 b')
          \<and> (\<forall>k < length [0, 5::32 word]. k \<noteq> unat ((33::32 word) div 32) \<longrightarrow> f' ! k = [0, 5] ! k))"
  using nvBitFieldSet_then_Test [of "[0, 5]" 2 33 True, THEN conjunct1] by simp
section \<open>The lowest and the highest zero bit\<close>















section \<open>Unsigned integer to string\<close>

lemma digit_char: "\<forall>i\<in>set [0..<36]. char_of (int i + (if i < 10 then 48 else 97 - 10)) = digit_chars ! i"
  by code_simp

lemma digit_char_nth:
  assumes "i < 36"
  shows "char_of (int i + (if i < 10 then 48 else 97 - 10)) = digit_chars ! i"
proof -
  have "i \<in> set [0..<36]" using assms by simp
  then show ?thesis by (rule digit_char [rule_format])
qed

lemma small_word_sint:
  fixes i :: "32 word" assumes "unat i < 36"
  shows "sint i = int (unat i)" "i <s 10 \<longleftrightarrow> unat i < 10"
proof -
  have "int (unat i) < 36" using assms by linarith
  then have u: "uint i < 36" by simp
  have "(0::int) \<le> uint i" by simp
  then have lo: "- (2 ^ 31) \<le> uint i" by (rule order_trans [rotated]) simp
  have hi: "uint i < 2 ^ 31" using u by simp
  have "signed_take_bit 31 (uint i) = uint i"
    using lo hi by (rule signed_take_bit_int_eq_self)
  then have "sint i = uint i"
    by (simp add: sint_uint)
  then show s: "sint i = int (unat i)" by simp
  have "uint i < 10 \<longleftrightarrow> unat i < 10" using word_less_nat_alt [of i 10] word_less_alt [of i 10] by simp
  then show "i <s 10 \<longleftrightarrow> unat i < 10" unfolding word_sless_alt \<open>sint i = uint i\<close> by simp
qed

lemma U32ToStr_digit_char:
  fixes i :: "32 word" assumes "unat i < 36"
  shows "char_of (sint i + (if i <s 10 then 48 else 97 - 10)) = digit_chars ! unat i"
  unfolding small_word_sint [OF assms] by (rule digit_char_nth [OF assms])

lemma U32ToStr_digits_correct:
  assumes "2 \<le> unat base" and "unat base \<le> 36" and "v \<noteq> 0 \<or> tmp = []"
    and "length tmp + length (lsd_digits (unat base) (unat v)) \<le> 33"
  shows "U32ToStr_digits base v tmp
           = Inr (tmp @ map (\<lambda>d. digit_chars ! d) (lsd_digits (unat base) (unat v)))"
  using assms
proof (induction base v tmp rule: U32ToStr_digits.induct)
  case (1 base v tmp)
  let ?b = "unat base" and ?n = "unat v"
  let ?c = "char_of (sint (v mod base) + (if v mod base <s 10 then 48 else 97 - 10))"
  have len: "length tmp < 33"
    using "1.prems"(4) by (subst (asm) lsd_digits.simps) (simp split: if_splits)
  have m: "unat (v mod base) = ?n mod ?b" by (simp add: unat_mod)
  have d: "unat (v div base) = ?n div ?b" by (simp add: unat_div)
  have "?n mod ?b < ?b" using "1.prems"(1) by simp
  then have "?n mod ?b < 36" using "1.prems"(2) by simp
  then have c: "?c = digit_chars ! (?n mod ?b)" using U32ToStr_digit_char [of "v mod base"] m by simp
  have step: "U32ToStr_digits base v tmp = U32ToStr_digits base (v div base) (tmp @ [?c])"
    using "1.prems"(3) len by (subst U32ToStr_digits.simps) (simp add: Let_def)
  show ?case
  proof (cases "?n < ?b")
    case True
    then have "v div base = 0" using d by (simp add: unat_eq_zero [symmetric])
    then have "U32ToStr_digits base (v div base) (tmp @ [?c]) = Inr (tmp @ [?c])"
      by (subst U32ToStr_digits.simps) simp
    moreover have "lsd_digits ?b ?n = [?n]" using True by (subst lsd_digits.simps) simp
    ultimately show ?thesis using step c True by simp
  next
    case False
    then have "?n div ?b \<noteq> 0" using "1.prems"(1) by (simp add: div_eq_0_iff)
    then have nz: "v div base \<noteq> 0" using d by auto
    have l: "lsd_digits ?b ?n = (?n mod ?b) # lsd_digits ?b (?n div ?b)"
      using False "1.prems"(1) by (subst lsd_digits.simps) simp
    have "U32ToStr_digits base (v div base) (tmp @ [?c])
            = Inr ((tmp @ [?c]) @ map (\<lambda>d. digit_chars ! d) (lsd_digits ?b (unat (v div base))))"
      using "1.prems"(4) l d nz
      by (intro "1.IH" [OF "1.prems"(3) len refl refl refl "1.prems"(1,2)]) simp_all
    then show ?thesis using step c l d by simp
  qed
qed

lemma lsd_digits_length:
  assumes "2 \<le> b" shows "n < 2 ^ Suc k \<Longrightarrow> length (lsd_digits b n) \<le> Suc k"
proof (induction k arbitrary: n)
  case 0
  then have "n < b" using assms by simp
  then show ?case by (subst lsd_digits.simps) simp
next
  case (Suc k)
  show ?case
  proof (cases "n < b")
    case True then show ?thesis by (subst lsd_digits.simps) simp
  next
    case False
    have "n div b \<le> n div 2" using assms by (simp add: div_le_mono2)
    moreover have "n div 2 < 2 ^ Suc k" using Suc.prems by simp
    ultimately have "length (lsd_digits b (n div b)) \<le> Suc k" using Suc.IH by simp
    then show ?thesis using False assms by (subst lsd_digits.simps) simp
  qed
qed

lemma lsd_digits_nonempty: "lsd_digits b n \<noteq> []"
  by (subst lsd_digits.simps) simp

lemma lsd_digits_less: "2 \<le> b \<Longrightarrow> d \<in> set (lsd_digits b n) \<Longrightarrow> d < b"
proof (induction b n rule: lsd_digits.induct)
  case (1 b n)
  then show ?case by (subst (asm) (2) lsd_digits.simps) (auto split: if_splits)
qed

lemma lsd_digits_value: "2 \<le> b \<Longrightarrow> foldr (\<lambda>d a. a * b + d) (lsd_digits b n) 0 = n"
proof (induction b n rule: lsd_digits.induct)
  case (1 b n)
  then show ?case by (subst lsd_digits.simps) (auto split: if_splits)
qed

lemma lsd_digits_last: "2 \<le> b \<Longrightarrow> lsd_digits b n = [0] \<or> last (lsd_digits b n) \<noteq> 0"
proof (induction b n rule: lsd_digits.induct)
  case (1 b n)
  show ?case
  proof (cases "n < b")
    case True
    then have "lsd_digits b n = [n]" by (subst lsd_digits.simps) simp
    then show ?thesis by auto
  next
    case False
    then have "n div b \<noteq> 0" using "1.prems" by (simp add: div_eq_0_iff)
    then have a: "lsd_digits b (n div b) \<noteq> [0]"
      using lsd_digits_value [OF "1.prems", of "n div b"] by auto
    have l: "lsd_digits b n = (n mod b) # lsd_digits b (n div b)"
      using False "1.prems" by (subst lsd_digits.simps) simp
    have "last (lsd_digits b (n div b)) \<noteq> 0" using "1.IH" False "1.prems" a by auto
    then show ?thesis unfolding l using lsd_digits_nonempty by simp
  qed
qed

lemma U32ToStr_copy_correct:
  "tp \<le> length tmp \<Longrightarrow> sp + tp \<le> length string \<Longrightarrow>
   U32ToStr_copy tmp tp string sp
     = Inr (take sp string @ rev (take tp tmp) @ drop (sp + tp) string, sp + tp)"
proof (induction tp arbitrary: string sp)
  case 0
  then show ?case by simp
next
  case (Suc tp)
  have "take sp (string[sp := tmp ! tp]) = take sp string" by simp
  moreover have "drop (Suc sp + tp) (string[sp := tmp ! tp]) = drop (Suc sp + tp) string" by simp
  moreover have "take (Suc sp) (string[sp := tmp ! tp]) = take sp string @ [tmp ! tp]"
    using Suc.prems by (simp add: take_Suc_conv_app_nth)
  moreover have "take (Suc tp) tmp = take tp tmp @ [tmp ! tp]"
    using Suc.prems by (simp add: take_Suc_conv_app_nth)
  ultimately show ?case using Suc.prems Suc.IH [where string = "string[sp := tmp ! tp]" and sp = "Suc sp"] by simp
qed

text \<open>
  Claim C8.  \<^verbatim>\<open>nvU32ToStr\<close> returns null exactly when the base is outside \<open>2..36\<close>.  For
  a base in \<open>2..36\<close> and a buffer of at least 33 bytes it writes the digits \<open>ns\<close> of the
  value (each below the base, written with \<^verbatim>\<open>0-9a-z\<close>, most significant first, no
  leading zero, between 1 and 32 of them), then a zero byte, leaves the rest of the
  buffer as it was, and returns the buffer.
\<close>

theorem nvU32ToStr_spec:
  "(nvU32ToStr v string base = Inr None \<longleftrightarrow> \<not> (2 \<le> base \<and> base \<le> 36))
   \<and> (2 \<le> base \<and> base \<le> 36 \<and> 33 \<le> length string \<longrightarrow>
        (\<exists>ns. nvU32ToStr v string base
                = Inr (Some (map (\<lambda>d. digit_chars ! d) ns @ [CHR 0x00] @ drop (length ns + 1) string))
            \<and> 1 \<le> length ns \<and> length ns \<le> 32
            \<and> (\<forall>d\<in>set ns. d < unat base)
            \<and> foldl (\<lambda>a d. a * unat base + d) 0 ns = unat v
            \<and> (ns = [0] \<or> hd ns \<noteq> 0)))"
proof (intro conjI impI)
  show "nvU32ToStr v string base = Inr None \<longleftrightarrow> \<not> (2 \<le> base \<and> base \<le> 36)"
  proof (cases "2 \<le> base \<and> base \<le> 36")
    case True
    then have "\<not> base > 36" "\<not> base \<le> 1" by (auto simp add: word_le_nat_alt word_less_nat_alt)
    then show ?thesis using True
      by (auto simp add: nvU32ToStr_def split: sum.splits prod.splits)
  next
    case False
    then have "base > 36 \<or> base \<le> 1" by (auto simp add: word_le_nat_alt word_less_nat_alt)
    then show ?thesis using False by (auto simp add: nvU32ToStr_def)
  qed
next
  assume a: "2 \<le> base \<and> base \<le> 36 \<and> 33 \<le> length string"
  let ?b = "unat base"
  let ?ds = "lsd_digits ?b (unat v)"
  let ?tmp = "map (\<lambda>d. digit_chars ! d) ?ds"
  have b: "2 \<le> ?b" "?b \<le> 36" using a by (simp_all add: word_le_nat_alt)
  have g: "\<not> base > 36" "\<not> base \<le> 1" using b by (simp_all add: word_le_nat_alt word_less_nat_alt)
  have "unat v < 2 ^ 32" using unsigned_less [of v] by simp
  then have len: "length ?ds \<le> 32" using lsd_digits_length [OF b(1), of "unat v" 31] by simp
  have ne: "1 \<le> length ?ds" using lsd_digits_nonempty [of ?b "unat v"] by (cases ?ds) simp_all
  have digs: "U32ToStr_digits base v [] = Inr ?tmp"
    using U32ToStr_digits_correct [OF b, of v "[]"] len by simp
  have copy: "U32ToStr_copy ?tmp (length ?tmp) string 0
                = Inr (rev ?tmp @ drop (length ?tmp) string, length ?tmp)"
    using U32ToStr_copy_correct [of "length ?tmp" ?tmp 0 string] len a by simp
  have upd: "(rev ?tmp @ drop (length ?tmp) string)[length ?tmp := CHR 0x00]
               = rev ?tmp @ [CHR 0x00] @ drop (length ?tmp + 1) string"
  proof -
    have "drop (length ?tmp) string \<noteq> []" using len a by simp
    then obtain c cs where c: "drop (length ?tmp) string = c # cs" by (cases "drop (length ?tmp) string") auto
    then have "cs = drop (length ?tmp + 1) string" by (metis Suc_eq_plus1 drop_Suc drop_drop list.sel(3) tl_drop add.commute plus_1_eq_Suc)
    then show ?thesis using c by (simp add: list_update_append)
  qed
  have res: "nvU32ToStr v string base
               = Inr (Some (map (\<lambda>d. digit_chars ! d) (rev ?ds) @ [CHR 0x00] @ drop (length (rev ?ds) + 1) string))"
    using g digs copy upd len a by (simp add: nvU32ToStr_def rev_map)
  have val: "foldl (\<lambda>a d. a * ?b + d) 0 (rev ?ds) = unat v"
    using lsd_digits_value [OF b(1), of "unat v"] by (simp add: foldl_conv_foldr)
  have can: "rev ?ds = [0] \<or> hd (rev ?ds) \<noteq> 0"
    using lsd_digits_last [OF b(1), of "unat v"] lsd_digits_nonempty [of ?b "unat v"]
    by (auto simp add: hd_rev)
  have lt: "\<forall>d\<in>set (rev ?ds). d < ?b" using lsd_digits_less [OF b(1)] by auto
  show "\<exists>ns. nvU32ToStr v string base
                = Inr (Some (map (\<lambda>d. digit_chars ! d) ns @ [CHR 0x00] @ drop (length ns + 1) string))
            \<and> 1 \<le> length ns \<and> length ns \<le> 32
            \<and> (\<forall>d\<in>set ns. d < unat base)
            \<and> foldl (\<lambda>a d. a * unat base + d) 0 ns = unat v
            \<and> (ns = [0] \<or> hd ns \<noteq> 0)"
    by (rule exI [of _ "rev ?ds"]) (use res ne len lt val can in simp)
qed

theorem nvU32ToStr_spec_witness:
  "(2 :: 32 word) \<le> 16 \<and> (16 :: 32 word) \<le> 36 \<and> 33 \<le> length (replicate 33 CHR ''x'')
   \<and> nvU32ToStr 255 (replicate 33 CHR ''x'') 16 = Inr (Some (''ff'' @ [CHR 0x00] @ replicate 30 CHR ''x''))
   \<and> nvU32ToStr 255 (replicate 33 CHR ''x'') 16 \<noteq> Inr None
   \<and> nvU32ToStr 255 (replicate 33 CHR ''x'') 37 = Inr None
   \<and> (\<exists>ns. nvU32ToStr 255 (replicate 33 CHR ''x'') 16
              = Inr (Some (map (\<lambda>d. digit_chars ! d) ns @ [CHR 0x00] @ drop (length ns + 1) (replicate 33 CHR ''x'')))
          \<and> foldl (\<lambda>a d. a * unat (16 :: 32 word) + d) 0 ns = unat (255 :: 32 word))"
proof -
  have h: "(2 :: 32 word) \<le> 16 \<and> (16 :: 32 word) \<le> 36 \<and> 33 \<le> length (replicate 33 CHR ''x'')" by simp
  have e: "nvU32ToStr 255 (replicate 33 CHR ''x'') 16 = Inr (Some (''ff'' @ [CHR 0x00] @ replicate 30 CHR ''x''))"
    by code_simp
  have n: "nvU32ToStr 255 (replicate 33 CHR ''x'') 37 = Inr None" by (simp add: nvU32ToStr_def)
  from nvU32ToStr_spec [of 255 "replicate 33 CHR ''x''" 16] h
  have "\<exists>ns. nvU32ToStr 255 (replicate 33 CHR ''x'') 16
              = Inr (Some (map (\<lambda>d. digit_chars ! d) ns @ [CHR 0x00] @ drop (length ns + 1) (replicate 33 CHR ''x'')))
          \<and> foldl (\<lambda>a d. a * unat (16 :: 32 word) + d) 0 ns = unat (255 :: 32 word)"
    by blast
  then show ?thesis using h e n by simp
qed
section \<open>Merge sort: the loops and the list of elements\<close>

text \<open>
  The proofs look at the array as a list of elements.  \<open>merge_runs\<close> is the merge of two
  runs as the \<^verbatim>\<open>while (1)\<close> loop and the two copy loops perform it, \<open>merged_block\<close> one
  iteration of the inner loop, \<open>run_blocks\<close> the inner and \<open>run_passes\<close> the outer loop on
  lists.  They are used in the proofs only.
\<close>

fun merge_runs :: "('a \<Rightarrow> 'a \<Rightarrow> bool) \<Rightarrow> 'a list \<Rightarrow> 'a list \<Rightarrow> 'a list" where
  "merge_runs lt [] ys = ys"
| "merge_runs lt xs [] = xs"
| "merge_runs lt (x # xs) (y # ys) =
    (if lt x y then x # merge_runs lt xs (y # ys) else y # merge_runs lt (x # xs) ys)"

definition merge_phase ::
  "32 word \<Rightarrow> (byte list \<Rightarrow> byte list \<Rightarrow> bool) \<Rightarrow> byte list \<Rightarrow> 32 word \<Rightarrow> 32 word
    \<Rightarrow> 32 word \<Rightarrow> 32 word \<Rightarrow> nat \<Rightarrow> byte list \<Rightarrow> fault + (nat \<times> byte list)" where
  "merge_phase sz lt array loMax hiMax lo hi dest mergeArray =
    (case merge_loop sz lt array loMax hiMax lo hi dest mergeArray of Inl e \<Rightarrow> Inl e
     | Inr (lo', hi', dest', mergeArray') \<Rightarrow>
    (case copy_remaining sz array loMax lo' dest' mergeArray' of Inl e \<Rightarrow> Inl e
     | Inr (dest'', mergeArray'') \<Rightarrow> copy_remaining sz array hiMax hi' dest'' mergeArray''))"

lemma length_concat_chunks: "\<forall>e\<in>set es. length e = S \<Longrightarrow> length (concat es) = length es * S"
  by (induction es) auto

lemma drop_concat_chunks:
  "\<forall>e\<in>set es. length e = S \<Longrightarrow> drop (k * S) (concat es) = concat (drop k es)"
proof (induction es arbitrary: k)
  case Nil then show ?case by simp
next
  case (Cons e es)
  show ?case
  proof (cases k)
    case 0 then show ?thesis by simp
  next
    case (Suc j)
    then show ?thesis using Cons by simp
  qed
qed

lemma take_concat_chunks:
  "\<forall>e\<in>set es. length e = S \<Longrightarrow> take (k * S) (concat es) = concat (take k es)"
proof (induction es arbitrary: k)
  case Nil then show ?case by simp
next
  case (Cons e es)
  show ?case
  proof (cases k)
    case 0 then show ?thesis by simp
  next
    case (Suc j)
    then show ?thesis using Cons by simp
  qed
qed

lemma chunk_nth:
  assumes "\<forall>e\<in>set es. length e = S" and "k < length es"
  shows "take S (drop (k * S) (concat es)) = es ! k"
proof -
  have "drop k es = es ! k # drop (Suc k) es" using assms(2) by (simp add: Cons_nth_drop_Suc)
  moreover have "length (es ! k) = S" using assms by simp
  ultimately show ?thesis using drop_concat_chunks [OF assms(1), of k] by simp
qed

lemma EL_exact:
  assumes "unat k * unat sz < 2 ^ 32" shows "EL sz k = unat k * unat sz"
  using assms unat_mult_lem [of k sz] by (simp add: EL_def)

lemma EL_in_range:
  assumes "unat k < N" "N * unat sz < 2 ^ 32"
  shows "EL sz k = unat k * unat sz" "EL sz k + unat sz \<le> N * unat sz"
proof -
  have le: "unat k * unat sz + unat sz \<le> N * unat sz"
  proof -
    have "Suc (unat k) * unat sz \<le> N * unat sz" using assms(1) by (intro mult_le_mono1) simp
    then show ?thesis by (simp add: add.commute)
  qed
  then show "EL sz k = unat k * unat sz" using assms(2) by (intro EL_exact) simp
  then show "EL sz k + unat sz \<le> N * unat sz" using le by simp
qed

lemma peek_elem:
  assumes "\<forall>e\<in>set es. length e = unat sz" "unat k < length es" "length es * unat sz < 2 ^ 32"
  shows "peek (concat es) (EL sz k) (unat sz) = Inr (es ! unat k)"
  using EL_in_range [OF assms(2,3)] chunk_nth [OF assms(1,2)] length_concat_chunks [OF assms(1)]
  by (simp add: peek_def)

lemma copy_elem:
  assumes "\<forall>e\<in>set es. length e = unat sz" "unat k < length es" "length es * unat sz < 2 ^ 32"
    and "dest + unat sz \<le> length scr"
  shows "portMemCopy scr dest (concat es) (EL sz k) (unat sz)
           = Inr (take dest scr @ es ! unat k @ drop (dest + unat sz) scr)"
  using EL_in_range [OF assms(2,3)] chunk_nth [OF assms(1,2)] length_concat_chunks [OF assms(1)] assms(4)
  by (simp add: portMemCopy_def)

lemma write_chunk:
  assumes "d + length e \<le> length scr"
  defines "scr1 \<equiv> take d scr @ e @ drop (d + length e) scr"
  shows "length scr1 = length scr" "take (d + length e) scr1 = take d scr @ e"
    "drop (d + length e + x) scr1 = drop (d + length e + x) scr"
proof -
  have d: "d \<le> length scr" using assms(1) by simp
  then have m: "min (length scr) d = d" by simp
  show "length scr1 = length scr" using assms(1) by (simp add: scr1_def m)
  show "take (d + length e) scr1 = take d scr @ e" by (simp add: scr1_def m)
  show "drop (d + length e + x) scr1 = drop (d + length e + x) scr"
    by (simp add: scr1_def m add.commute add.left_commute)
qed

lemma copy_remaining_correct:
  assumes "\<forall>e\<in>set es. length e = unat sz" and "length es * unat sz < 2 ^ 32"
    and "k \<le> kMax" and "unat kMax \<le> length es"
    and "dest + (unat kMax - unat k) * unat sz \<le> length scr"
  shows "copy_remaining sz (concat es) kMax k dest scr
           = Inr (dest + (unat kMax - unat k) * unat sz,
                  take dest scr @ concat (take (unat kMax - unat k) (drop (unat k) es))
                    @ drop (dest + (unat kMax - unat k) * unat sz) scr)"
  using assms
proof (induction sz "concat es" kMax k dest scr rule: copy_remaining.induct)
  case (1 sz kMax k dest scr)
  let ?S = "unat sz"
  show ?case
  proof (cases "k < kMax")
    case False
    then have "k = kMax" using "1.prems"(3) by simp
    then show ?thesis by (subst copy_remaining.simps) simp
  next
    case True
    then have ku: "unat k < unat kMax" by (simp add: word_less_nat_alt)
    then have kl: "unat k < length es" using "1.prems"(4) by simp
    have u1: "unat (k + 1) = Suc (unat k)" using True by (rule unat_plus_one_less)
    have le: "k + 1 \<le> kMax" using u1 ku by (simp add: word_le_nat_alt)
    have sp: "(unat kMax - unat k) * ?S = ?S + (unat kMax - unat (k + 1)) * ?S"
      using ku u1 by (metis Suc_diff_Suc mult_Suc)
    then have room: "dest + ?S \<le> length scr" using "1.prems"(5) by simp
    let ?e = "es ! unat k"
    let ?scr1 = "take dest scr @ ?e @ drop (dest + ?S) scr"
    have el: "length ?e = ?S" using "1.prems"(1) kl by simp
    have cp: "portMemCopy scr dest (concat es) (EL sz k) ?S = Inr ?scr1"
      using copy_elem [OF "1.prems"(1) kl "1.prems"(2) room] .
    have w: "length ?scr1 = length scr" "take (dest + ?S) ?scr1 = take dest scr @ ?e"
      "\<And>x. drop (dest + ?S + x) ?scr1 = drop (dest + ?S + x) scr"
      using write_chunk [of dest ?e scr] room el by simp_all
    have room': "dest + ?S + (unat kMax - unat (k + 1)) * ?S \<le> length ?scr1"
      using "1.prems"(5) sp w(1) by simp
    have IH: "copy_remaining sz (concat es) kMax (k + 1) (dest + ?S) ?scr1
           = Inr (dest + ?S + (unat kMax - unat (k + 1)) * ?S,
                  take (dest + ?S) ?scr1 @ concat (take (unat kMax - unat (k + 1)) (drop (unat (k + 1)) es))
                    @ drop (dest + ?S + (unat kMax - unat (k + 1)) * ?S) ?scr1)"
      using "1.hyps" [OF True cp "1.prems"(1,2) le "1.prems"(4) room'] .
    have tk: "take (unat kMax - unat k) (drop (unat k) es)
                = ?e # take (unat kMax - unat (k + 1)) (drop (unat (k + 1)) es)"
      using kl ku u1 by (metis Cons_nth_drop_Suc Suc_diff_Suc take_Suc_Cons)
    have "copy_remaining sz (concat es) kMax k dest scr
            = copy_remaining sz (concat es) kMax (k + 1) (dest + ?S) ?scr1"
      using True cp by (subst copy_remaining.simps) simp
    then show ?thesis unfolding IH w tk sp by (simp add: add.assoc)
  qed
qed


lemma run_Cons:
  assumes "k < kMax" "unat kMax \<le> length es"
  shows "take (unat kMax - unat k) (drop (unat k) es)
           = es ! unat k # take (unat kMax - unat (k + 1)) (drop (unat (k + 1)) es)"
proof -
  have ku: "unat k < unat kMax" using assms(1) by (simp add: word_less_nat_alt)
  have u1: "unat (k + 1) = Suc (unat k)" using assms(1) by (rule unat_plus_one_less)
  show ?thesis using ku u1 assms(2) by (metis Cons_nth_drop_Suc Suc_diff_Suc take_Suc_Cons less_le_trans)
qed

lemma run_end:
  assumes "k < kMax" "kMax \<le> k + 1"
  shows "unat kMax - unat (k + 1) = 0" "\<not> k + 1 < kMax"
  using assms unat_plus_one_less [OF assms(1)] by (simp_all add: word_le_nat_alt word_less_nat_alt)

lemma merge_phase_correct:
  assumes "\<forall>e\<in>set es. length e = unat sz" and "length es * unat sz < 2 ^ 32"
    and "lo < loMax" and "unat loMax \<le> length es" and "hi < hiMax" and "unat hiMax \<le> length es"
    and "dest + ((unat loMax - unat lo) + (unat hiMax - unat hi)) * unat sz \<le> length scr"
  shows "merge_phase sz lt (concat es) loMax hiMax lo hi dest scr
           = Inr (dest + ((unat loMax - unat lo) + (unat hiMax - unat hi)) * unat sz,
                  take dest scr
                  @ concat (merge_runs lt (take (unat loMax - unat lo) (drop (unat lo) es))
                                          (take (unat hiMax - unat hi) (drop (unat hi) es)))
                  @ drop (dest + ((unat loMax - unat lo) + (unat hiMax - unat hi)) * unat sz) scr)"
  using assms
proof (induction sz lt "concat es" loMax hiMax lo hi dest scr rule: merge_loop.induct)
  case (1 sz lt loMax hiMax lo hi dest scr)
  let ?S = "unat sz"
  let ?a = "es ! unat lo" and ?b = "es ! unat hi"
  let ?L' = "take (unat loMax - unat (lo + 1)) (drop (unat (lo + 1)) es)"
  let ?H' = "take (unat hiMax - unat (hi + 1)) (drop (unat (hi + 1)) es)"
  let ?L = "take (unat loMax - unat lo) (drop (unat lo) es)"
  let ?H = "take (unat hiMax - unat hi) (drop (unat hi) es)"
  note wf = "1.prems"(1,2)
  have lou: "unat lo < unat loMax" and hiu: "unat hi < unat hiMax"
    using "1.prems"(3,5) by (simp_all add: word_less_nat_alt)
  have lol: "unat lo < length es" and hil: "unat hi < length es"
    using lou hiu "1.prems"(4,6) by simp_all
  have lo1: "unat (lo + 1) = Suc (unat lo)" using "1.prems"(3) by (rule unat_plus_one_less)
  have hi1: "unat (hi + 1) = Suc (unat hi)" using "1.prems"(5) by (rule unat_plus_one_less)
  have L: "?L = ?a # ?L'" using run_Cons [OF "1.prems"(3,4)] .
  have H: "?H = ?b # ?H'" using run_Cons [OF "1.prems"(5,6)] .
  have pa: "peek (concat es) (EL sz lo) ?S = Inr ?a" using peek_elem [OF wf(1) lol wf(2)] .
  have pb: "peek (concat es) (EL sz hi) ?S = Inr ?b" using peek_elem [OF wf(1) hil wf(2)] .
  have la: "length ?a = ?S" and lb: "length ?b = ?S" using wf(1) lol hil by simp_all
  have room1: "dest + ?S \<le> length scr"
  proof -
    have "1 \<le> (unat loMax - unat lo) + (unat hiMax - unat hi)" using lou by simp
    then have "1 * ?S \<le> ((unat loMax - unat lo) + (unat hiMax - unat hi)) * ?S"
      by (rule mult_le_mono1)
    then show ?thesis using "1.prems"(7) by linarith
  qed
  show ?case
  proof (cases "lt ?a ?b")
    case True
    let ?scr1 = "take dest scr @ ?a @ drop (dest + ?S) scr"
    have cp: "portMemCopy scr dest (concat es) (EL sz lo) ?S = Inr ?scr1"
      using copy_elem [OF wf(1) lol wf(2) room1] .
    have w: "length ?scr1 = length scr" "take (dest + ?S) ?scr1 = take dest scr @ ?a"
      "\<And>x. drop (dest + ?S + x) ?scr1 = drop (dest + ?S + x) scr"
      using write_chunk [of dest ?a scr] room1 la by simp_all
    have cnt: "((unat loMax - unat lo) + (unat hiMax - unat hi)) * ?S
                 = ?S + ((unat loMax - unat (lo + 1)) + (unat hiMax - unat hi)) * ?S"
      using lou lo1 by (metis Suc_diff_Suc add_Suc mult_Suc)
    have mr: "merge_runs lt ?L ?H = ?a # merge_runs lt ?L' ?H"
      unfolding L unfolding H using True by simp
    show ?thesis
    proof (cases "loMax \<le> lo + 1")
      case le: True
      have e: "unat loMax - unat (lo + 1) = 0" "\<not> lo + 1 < loMax"
        using run_end [OF "1.prems"(3) le] .
      have ml: "merge_loop sz lt (concat es) loMax hiMax lo hi dest scr
                  = Inr (lo + 1, hi, dest + ?S, ?scr1)"
        using pa pb True cp le by (subst merge_loop.simps) simp
      have c1: "copy_remaining sz (concat es) loMax (lo + 1) (dest + ?S) ?scr1 = Inr (dest + ?S, ?scr1)"
        using e(2) by (subst copy_remaining.simps) simp
      have room2: "dest + ?S + (unat hiMax - unat hi) * ?S \<le> length ?scr1"
        using "1.prems"(7) cnt e(1) w(1) by simp
      have c2: "copy_remaining sz (concat es) hiMax hi (dest + ?S) ?scr1
                  = Inr (dest + ?S + (unat hiMax - unat hi) * ?S,
                         take (dest + ?S) ?scr1 @ concat ?H @ drop (dest + ?S + (unat hiMax - unat hi) * ?S) ?scr1)"
        using copy_remaining_correct [OF wf _ "1.prems"(6) room2] "1.prems"(5) by simp
      have "merge_runs lt ?L' ?H = ?H" using e(1) by simp
      then show ?thesis unfolding merge_phase_def ml using c1 c2 mr cnt e(1) w by (simp add: add.assoc)
    next
      case nle: False
      have lt': "lo + 1 < loMax" using nle by simp
      have ml: "merge_loop sz lt (concat es) loMax hiMax lo hi dest scr
                  = merge_loop sz lt (concat es) loMax hiMax (lo + 1) hi (dest + ?S) ?scr1"
        using pa pb True cp nle by (subst merge_loop.simps) simp
      have room2: "dest + ?S + ((unat loMax - unat (lo + 1)) + (unat hiMax - unat hi)) * ?S \<le> length ?scr1"
        using "1.prems"(7) cnt w(1) by simp
      have IH: "merge_phase sz lt (concat es) loMax hiMax (lo + 1) hi (dest + ?S) ?scr1
           = Inr (dest + ?S + ((unat loMax - unat (lo + 1)) + (unat hiMax - unat hi)) * ?S,
                  take (dest + ?S) ?scr1 @ concat (merge_runs lt ?L' ?H)
                  @ drop (dest + ?S + ((unat loMax - unat (lo + 1)) + (unat hiMax - unat hi)) * ?S) ?scr1)"
        using "1.hyps"(1) [OF pa pb True cp nle wf lt' "1.prems"(4,5,6) room2] .
      have "merge_phase sz lt (concat es) loMax hiMax lo hi dest scr
              = merge_phase sz lt (concat es) loMax hiMax (lo + 1) hi (dest + ?S) ?scr1"
        unfolding merge_phase_def ml ..
      then show ?thesis unfolding IH mr cnt w by (simp add: add.assoc)
    qed
  next
    case False
    let ?scr1 = "take dest scr @ ?b @ drop (dest + ?S) scr"
    have cp: "portMemCopy scr dest (concat es) (EL sz hi) ?S = Inr ?scr1"
      using copy_elem [OF wf(1) hil wf(2) room1] .
    have w: "length ?scr1 = length scr" "take (dest + ?S) ?scr1 = take dest scr @ ?b"
      "\<And>x. drop (dest + ?S + x) ?scr1 = drop (dest + ?S + x) scr"
      using write_chunk [of dest ?b scr] room1 lb by simp_all
    have cnt: "((unat loMax - unat lo) + (unat hiMax - unat hi)) * ?S
                 = ?S + ((unat loMax - unat lo) + (unat hiMax - unat (hi + 1))) * ?S"
      using hiu hi1 by (metis Suc_diff_Suc add_Suc_right mult_Suc)
    have mr: "merge_runs lt ?L ?H = ?b # merge_runs lt ?L ?H'"
      unfolding H unfolding L using False by simp
    show ?thesis
    proof (cases "hiMax \<le> hi + 1")
      case le: True
      have e: "unat hiMax - unat (hi + 1) = 0" "\<not> hi + 1 < hiMax"
        using run_end [OF "1.prems"(5) le] .
      have ml: "merge_loop sz lt (concat es) loMax hiMax lo hi dest scr
                  = Inr (lo, hi + 1, dest + ?S, ?scr1)"
        using pa pb False cp le by (subst merge_loop.simps) simp
      have room2: "dest + ?S + (unat loMax - unat lo) * ?S \<le> length ?scr1"
        using "1.prems"(7) cnt e(1) w(1) by simp
      have c1: "copy_remaining sz (concat es) loMax lo (dest + ?S) ?scr1
                  = Inr (dest + ?S + (unat loMax - unat lo) * ?S,
                         take (dest + ?S) ?scr1 @ concat ?L @ drop (dest + ?S + (unat loMax - unat lo) * ?S) ?scr1)"
        using copy_remaining_correct [OF wf _ "1.prems"(4) room2] "1.prems"(3) by simp
      have c2: "copy_remaining sz (concat es) hiMax (hi + 1) d x = Inr (d, x)" for d x
        using e(2) by (subst copy_remaining.simps) simp
      have "merge_runs lt ?L ?H' = ?L" using e(1) L by simp
      then show ?thesis unfolding merge_phase_def ml using c1 c2 mr cnt e(1) w by (simp add: add.assoc)
    next
      case nle: False
      have lt': "hi + 1 < hiMax" using nle by simp
      have ml: "merge_loop sz lt (concat es) loMax hiMax lo hi dest scr
                  = merge_loop sz lt (concat es) loMax hiMax lo (hi + 1) (dest + ?S) ?scr1"
        using pa pb False cp nle by (subst merge_loop.simps) simp
      have room2: "dest + ?S + ((unat loMax - unat lo) + (unat hiMax - unat (hi + 1))) * ?S \<le> length ?scr1"
        using "1.prems"(7) cnt w(1) by simp
      have IH: "merge_phase sz lt (concat es) loMax hiMax lo (hi + 1) (dest + ?S) ?scr1
           = Inr (dest + ?S + ((unat loMax - unat lo) + (unat hiMax - unat (hi + 1))) * ?S,
                  take (dest + ?S) ?scr1 @ concat (merge_runs lt ?L ?H')
                  @ drop (dest + ?S + ((unat loMax - unat lo) + (unat hiMax - unat (hi + 1))) * ?S) ?scr1)"
        using "1.hyps"(2) [OF pa pb False cp nle wf "1.prems"(3,4) lt' "1.prems"(6) room2] .
      have "merge_phase sz lt (concat es) loMax hiMax lo hi dest scr
              = merge_phase sz lt (concat es) loMax hiMax lo (hi + 1) (dest + ?S) ?scr1"
        unfolding merge_phase_def ml ..
      then show ?thesis unfolding IH mr cnt w by (simp add: add.assoc)
    qed
  qed
qed

lemma merge_block_phase:
  "merge_block sz lt n m i array scr =
    (case merge_phase sz lt array (i + m) (min n (i + 2 * m)) i (i + m) 0 scr of Inl e \<Rightarrow> Inl e
     | Inr (dest, scr') \<Rightarrow>
       (case portMemCopy array (EL sz i) scr' 0 (unat (of_nat dest :: 32 word)) of Inl e \<Rightarrow> Inl e
        | Inr array' \<Rightarrow> Inr (array', scr')))"
  by (simp add: merge_block_def merge_phase_def Let_def split: sum.splits prod.splits)

lemma length_merge_runs: "length (merge_runs lt xs ys) = length xs + length ys"
  by (induction lt xs ys rule: merge_runs.induct) auto

lemma mset_merge_runs: "mset (merge_runs lt xs ys) = mset xs + mset ys"
  by (induction lt xs ys rule: merge_runs.induct) auto

lemma set_merge_runs: "set (merge_runs lt xs ys) = set xs \<union> set ys"
  by (induction lt xs ys rule: merge_runs.induct) auto

definition merged_block :: "('a \<Rightarrow> 'a \<Rightarrow> bool) \<Rightarrow> nat \<Rightarrow> nat \<Rightarrow> 'a list \<Rightarrow> 'a list" where
  "merged_block lt M I es =
     take I es @ merge_runs lt (take M (drop I es)) (take M (drop (I + M) es)) @ drop (I + 2 * M) es"

lemma length_merged_block: "length (merged_block lt M I es) = length es"
  by (auto simp add: merged_block_def length_merge_runs min_def)

lemma split_blocks:
  "es = take I es @ take M (drop I es) @ take M (drop (I + M) es) @ drop (I + 2 * M) es"
proof -
  have "drop (I + M) es = take M (drop (I + M) es) @ drop (I + 2 * M) es"
    by (metis append_take_drop_id drop_drop add.commute add.assoc mult_2)
  moreover have "drop I es = take M (drop I es) @ drop (I + M) es"
    by (metis append_take_drop_id drop_drop add.commute)
  ultimately show ?thesis by (metis append_take_drop_id)
qed

lemma mset_merged_block: "mset (merged_block lt M I es) = mset es"
proof -
  have "mset (merged_block lt M I es)
          = mset (take I es @ take M (drop I es) @ take M (drop (I + M) es) @ drop (I + 2 * M) es)"
    by (simp add: merged_block_def mset_merge_runs)
  then show ?thesis using split_blocks [of es I M] by simp
qed

lemma set_merged_block: "set (merged_block lt M I es) = set es"
  by (metis mset_merged_block set_mset_mset)

lemma unat_of_nat_32: "k < 2 ^ 32 \<Longrightarrow> unat (of_nat k :: 32 word) = k"
  by (simp add: unat_of_nat)

lemma portMemCopy_back:
  assumes "length pre = off" and "length mid = len" and "length new = len"
  shows "portMemCopy (pre @ mid @ post) off (new @ rest) 0 len = Inr (pre @ new @ post)"
  using assms by (simp add: portMemCopy_def)

lemma merge_block_correct:
  assumes wf: "\<forall>e\<in>set es. length e = unat sz" and len: "length es = unat n"
    and sm: "unat n * unat sz < 2 ^ 32"
    and hi: "unat i + unat m < unat n" and m: "1 \<le> unat m"
    and nw: "unat i + 2 * unat m < 2 ^ 32"
    and room: "unat n * unat sz \<le> length scr"
  shows "\<exists>scr'. merge_block sz lt n m i (concat es) scr
                  = Inr (concat (merged_block lt (unat m) (unat i) es), scr')
               \<and> length scr' = length scr"
proof -
  define S N I M where "S = unat sz" and "N = unat n" and "I = unat i" and "M = unat m"
  note d = S_def N_def I_def M_def
  have nN: "N < 2 ^ 32" unfolding d using unsigned_less [of n] by simp
  have hi': "I + M < N" and m': "1 \<le> M" and nw': "I + 2 * M < 2 ^ 32" and len': "length es = N"
    using hi m nw len unfolding d by simp_all
  have im: "unat (i + m) = I + M"
    unfolding d using hi nN unat_add_lem [of i m] unfolding d by simp
  have m2: "unat (2 * m) = 2 * M" unfolding d using nw unat_mult_lem [of 2 m] by simp
  have i2m: "unat (i + 2 * m) = I + 2 * M"
    using nw' m2 unat_add_lem [of i "2 * m"] unfolding d by simp
  define hiMax where "hiMax = min n (i + 2 * m)"
  define H where "H = min N (I + 2 * M)"
  have hm: "unat hiMax = H"
    unfolding hiMax_def H_def by (simp add: min_def word_le_nat_alt i2m N_def)
  have Hb: "I + M < H" "H \<le> N" "H \<le> I + 2 * M" using hi' m' unfolding H_def by simp_all
  have lo_lt: "i < i + m" using im m' by (simp add: word_less_nat_alt I_def)
  have hi_lt: "i + m < hiMax" using im hm Hb(1) by (simp add: word_less_nat_alt)
  have loMax_le: "unat (i + m) \<le> length es" using im hi' len' by simp
  have hiMax_le: "unat hiMax \<le> length es" using hm Hb(2) len' by simp
  define c where "c = H - I"
  have c_eq: "(unat (i + m) - unat i) + (unat hiMax - unat (i + m)) = c"
    unfolding im hm c_def using Hb(1) by (simp add: I_def)
  have cN: "I + c \<le> N" unfolding c_def using Hb by simp
  have cS: "c * S \<le> N * S" using cN by (intro mult_le_mono1) simp
  have NS: "N * S < 2 ^ 32" "N * S \<le> length scr" using sm room unfolding d by simp_all
  have sm': "length es * unat sz < 2 ^ 32" using sm len by simp
  have room': "0 + ((unat (i + m) - unat i) + (unat hiMax - unat (i + m))) * unat sz \<le> length scr"
    unfolding c_eq using cS NS(2) unfolding S_def by linarith
  define L where "L = take M (drop I es)"
  define R where "R = take M (drop (I + M) es)"
  define mg where "mg = merge_runs lt L R"
  have Leq: "take (unat (i + m) - unat i) (drop (unat i) es) = L"
    unfolding im L_def by (simp add: I_def)
  have Req: "take (unat hiMax - unat (i + m)) (drop (unat (i + m)) es) = R"
  proof (cases "I + 2 * M \<le> N")
    case True
    then have "H - (I + M) = M" unfolding H_def by (simp add: min_def)
    then show ?thesis unfolding im hm R_def by simp
  next
    case False
    then have "H = N" unfolding H_def by (simp add: min_def)
    then have "H - (I + M) = length (drop (I + M) es)" "length (drop (I + M) es) \<le> M"
      using len' False by simp_all
    then show ?thesis unfolding im hm R_def by simp
  qed
  have ph: "merge_phase sz lt (concat es) (i + m) hiMax i (i + m) 0 scr
              = Inr (c * S, concat mg @ drop (c * S) scr)"
    using merge_phase_correct [OF wf sm' lo_lt loMax_le hi_lt hiMax_le room', of lt]
    unfolding Leq Req c_eq mg_def S_def by simp
  have lL: "length L = M" unfolding L_def using hi' len' by simp
  have "length R = min M (N - (I + M))" unfolding R_def using len' by simp
  also have "\<dots> = H - (I + M)" unfolding H_def using hi' by arith
  finally have lR: "length R = H - (I + M)" .
  have lmg: "length mg = c" unfolding mg_def length_merge_runs lL lR c_def using Hb by simp
  have wfmg: "\<forall>e\<in>set mg. length e = S"
    using wf unfolding mg_def L_def R_def S_def
    by (auto simp add: set_merge_runs dest!: in_set_takeD in_set_dropD)
  have lcm: "length (concat mg) = c * S" using length_concat_chunks [OF wfmg] lmg by simp
  have "c * S < 2 ^ 32" using cS NS(1) by linarith
  then have dl: "unat (of_nat (c * S) :: 32 word) = c * S" by (rule unat_of_nat_32)
  have "I * S \<le> N * S" using hi' by (intro mult_le_mono1) simp
  then have "unat i * unat sz < 2 ^ 32" using NS(1) unfolding d by linarith
  then have eli: "EL sz i = I * S" unfolding d by (rule EL_exact)
  have "c * S \<le> length scr" using cS NS(2) by linarith
  then have ls: "length (concat mg @ drop (c * S) scr) = length scr"
    unfolding length_append lcm by simp
  define mid where "mid = take c (drop I es)"
  have es3: "es = take I es @ mid @ drop (I + c) es"
    unfolding mid_def by (metis append_take_drop_id drop_drop add.commute)
  have wf3: "\<forall>e\<in>set (take I es). length e = S" "\<forall>e\<in>set mid. length e = S"
    using wf unfolding mid_def S_def by (auto dest!: in_set_takeD in_set_dropD)
  have l1: "length (concat (take I es)) = I * S"
    using length_concat_chunks [OF wf3(1)] hi' len' by simp
  have "length mid = c" unfolding mid_def using cN len' by simp
  then have l2: "length (concat mid) = c * S" using length_concat_chunks [OF wf3(2)] by simp
  have cc: "concat es = concat (take I es) @ concat mid @ concat (drop (I + c) es)"
    by (subst es3) (simp only: concat_append)
  have drp: "drop (I + c) es = drop (I + 2 * M) es"
  proof (cases "I + 2 * M \<le> N")
    case True
    then have "H = I + 2 * M" unfolding H_def by (simp add: min_def)
    then show ?thesis unfolding c_def by simp
  next
    case False
    then have "H = N" unfolding H_def by (simp add: min_def)
    then show ?thesis unfolding c_def using False len' hi' by simp
  qed
  have cb: "portMemCopy (concat es) (I * S) (concat mg @ drop (c * S) scr) 0 (c * S)
              = Inr (concat (take I es) @ concat mg @ concat (drop (I + c) es))"
    by (subst cc) (rule portMemCopy_back [OF l1 l2 lcm])
  have "merge_block sz lt n m i (concat es) scr
          = Inr (concat (take I es) @ concat mg @ concat (drop (I + c) es), concat mg @ drop (c * S) scr)"
    unfolding merge_block_phase hiMax_def [symmetric] ph
    by (simp only: sum.case prod.case dl cb eli)
  moreover have "concat (take I es) @ concat mg @ concat (drop (I + c) es)
          = concat (merged_block lt (unat m) (unat i) es)"
    unfolding drp unfolding merged_block_def mg_def L_def R_def d by simp
  ultimately show ?thesis using ls by simp
qed

function run_blocks :: "('a \<Rightarrow> 'a \<Rightarrow> bool) \<Rightarrow> nat \<Rightarrow> nat \<Rightarrow> 'a list \<Rightarrow> 'a list" where
  "run_blocks lt M I es =
    (if 0 < M \<and> I + M < length es then run_blocks lt M (I + 2 * M) (merged_block lt M I es)
     else es)"
  by pat_completeness auto
termination
  by (relation "measure (\<lambda>(lt, M, I, es). length es - I)") (auto simp: length_merged_block)

declare run_blocks.simps [simp del]

lemma length_run_blocks: "length (run_blocks lt M I es) = length es"
  by (induction lt M I es rule: run_blocks.induct)
     (subst run_blocks.simps, simp add: length_merged_block)

lemma mset_run_blocks: "mset (run_blocks lt M I es) = mset es"
  by (induction lt M I es rule: run_blocks.induct)
     (subst run_blocks.simps, simp add: mset_merged_block)

function run_passes :: "('a \<Rightarrow> 'a \<Rightarrow> bool) \<Rightarrow> nat \<Rightarrow> 'a list \<Rightarrow> 'a list" where
  "run_passes lt M es =
    (if 0 < M \<and> M \<le> length es then run_passes lt (2 * M) (run_blocks lt M 0 es) else es)"
  by pat_completeness auto
termination
  by (relation "measure (\<lambda>(lt, M, es). Suc (length es) - M)") (auto simp: length_run_blocks)

declare run_passes.simps [simp del]

lemma length_run_passes: "length (run_passes lt M es) = length es"
  by (induction lt M es rule: run_passes.induct)
     (subst run_passes.simps, simp add: length_run_blocks)

lemma mset_run_passes: "mset (run_passes lt M es) = mset es"
  by (induction lt M es rule: run_passes.induct)
     (subst run_passes.simps, simp add: mset_run_blocks)

lemma block_loop_correct:
  assumes "\<forall>e\<in>set es. length e = unat sz" and "length es = unat n"
    and "unat n * unat sz < 2 ^ 32"
    and "1 \<le> unat m" and "unat m \<le> unat n" and "unat n + unat m \<le> 2 ^ 32"
    and "unat n * unat sz \<le> length scr"
  shows "\<exists>scr'. block_loop sz lt n m i (concat es) scr
                  = Some (Inr (concat (run_blocks lt (unat m) (unat i) es), scr'))
               \<and> length scr' = length scr"
  using assms(1,2,7)
proof (induction "unat n - unat i" arbitrary: i es scr rule: less_induct)
  case less
  have nm: "unat (n - m) = unat n - unat m" using assms(5) by (simp add: unat_sub word_le_nat_alt)
  show ?case
  proof (cases "i < n - m")
    case False
    then have "\<not> unat i + unat m < unat n" using nm by (simp add: word_less_nat_alt)
    then have "run_blocks lt (unat m) (unat i) es = es"
      using less.prems(2) by (subst run_blocks.simps) simp
    moreover have "block_loop sz lt n m i (concat es) scr = Some (Inr (concat es, scr))"
      using False by (subst block_loop.simps) simp
    ultimately show ?thesis by simp
  next
    case True
    then have hi: "unat i + unat m < unat n" using nm by (simp add: word_less_nat_alt)
    have nw: "unat i + 2 * unat m < 2 ^ 32" using hi assms(6) by simp
    obtain scr1 where b: "merge_block sz lt n m i (concat es) scr
        = Inr (concat (merged_block lt (unat m) (unat i) es), scr1)" and l1: "length scr1 = length scr"
      using merge_block_correct [OF less.prems(1,2) assms(3) hi assms(4) nw less.prems(3)] by blast
    let ?es1 = "merged_block lt (unat m) (unat i) es"
    have wf1: "\<forall>e\<in>set ?es1. length e = unat sz" using less.prems(1) by (simp add: set_merged_block)
    have len1: "length ?es1 = unat n" using less.prems(2) by (simp add: length_merged_block)
    have m2: "unat (2 * m) = 2 * unat m" using nw unat_mult_lem [of 2 m] by simp
    have i2: "unat (i + 2 * m) = unat i + 2 * unat m" using nw m2 unat_add_lem [of i "2 * m"] by simp
    have dec: "unat n - unat (i + 2 * m) < unat n - unat i" using i2 hi assms(4) by simp
    have room1: "unat n * unat sz \<le> length scr1" using less.prems(3) l1 by simp
    obtain scr' where r: "block_loop sz lt n m (i + 2 * m) (concat ?es1) scr1
        = Some (Inr (concat (run_blocks lt (unat m) (unat (i + 2 * m)) ?es1), scr'))"
      and l2: "length scr' = length scr1"
      using less.hyps [OF dec wf1 len1 room1] by blast
    have "block_loop sz lt n m i (concat es) scr = block_loop sz lt n m (i + 2 * m) (concat ?es1) scr1"
      using True b by (subst block_loop.simps) simp
    moreover have "run_blocks lt (unat m) (unat i) es = run_blocks lt (unat m) (unat i + 2 * unat m) ?es1"
      using hi assms(4) less.prems(2) by (subst run_blocks.simps) simp
    ultimately show ?thesis using r l1 l2 i2 by simp
  qed
qed

lemma pass_loop_correct:
  assumes "unat n * unat sz < 2 ^ 32" and "unat n < 2 ^ 31"
  shows "\<forall>e\<in>set es. length e = unat sz \<Longrightarrow> length es = unat n \<Longrightarrow> 1 \<le> unat m
    \<Longrightarrow> unat n * unat sz \<le> length scr
    \<Longrightarrow> \<exists>scr'. pass_loop sz lt n m (concat es) scr
                  = Some (Inr (concat (run_passes lt (unat m) es), scr'))
               \<and> length scr' = length scr"
proof (induction "Suc (unat n) - unat m" arbitrary: m es scr rule: less_induct)
  case less
  show ?case
  proof (cases "m \<le> n")
    case False
    then have "\<not> unat m \<le> length es" using less.prems(2) by (simp add: word_le_nat_alt)
    then have "run_passes lt (unat m) es = es" by (subst run_passes.simps) simp
    moreover have "pass_loop sz lt n m (concat es) scr = Some (Inr (concat es, scr))"
      using False by (subst pass_loop.simps) simp
    ultimately show ?thesis by simp
  next
    case True
    then have mn: "unat m \<le> unat n" by (simp add: word_le_nat_alt)
    have nm: "unat n + unat m \<le> 2 ^ 32" using mn assms(2) by simp
    obtain scr1 where b: "block_loop sz lt n m 0 (concat es) scr
        = Some (Inr (concat (run_blocks lt (unat m) (unat (0 :: 32 word)) es), scr1))"
      and l1: "length scr1 = length scr"
      using block_loop_correct [OF less.prems(1,2) assms(1) less.prems(3) mn nm less.prems(4)] by blast
    let ?es1 = "run_blocks lt (unat m) 0 es"
    have wf1: "\<forall>e\<in>set ?es1. length e = unat sz"
      using less.prems(1) by (metis mset_run_blocks set_mset_mset)
    have len1: "length ?es1 = unat n" using less.prems(2) by (simp add: length_run_blocks)
    have m2: "unat (m * 2) = 2 * unat m" using mn assms(2) unat_mult_lem [of m 2] by simp
    have dec: "Suc (unat n) - unat (m * 2) < Suc (unat n) - unat m" using m2 mn less.prems(3) by simp
    have one: "1 \<le> unat (m * 2)" using m2 less.prems(3) by simp
    have room1: "unat n * unat sz \<le> length scr1" using less.prems(4) l1 by simp
    obtain scr' where r: "pass_loop sz lt n (m * 2) (concat ?es1) scr1
        = Some (Inr (concat (run_passes lt (unat (m * 2)) ?es1), scr'))"
      and l2: "length scr' = length scr1"
      using less.hyps [OF dec wf1 len1 one room1] by blast
    have "pass_loop sz lt n m (concat es) scr = pass_loop sz lt n (m * 2) (concat ?es1) scr1"
      using True b by (subst pass_loop.simps) simp
    moreover have "run_passes lt (unat m) es = run_passes lt (2 * unat m) ?es1"
      using mn less.prems(2,3) by (subst run_passes.simps) simp
    ultimately show ?thesis using r l1 l2 m2 by simp
  qed
qed

lemma sto_asym: "strict_total_order_on A lt \<Longrightarrow> a \<in> A \<Longrightarrow> b \<in> A \<Longrightarrow> lt a b \<Longrightarrow> \<not> lt b a"
  unfolding strict_total_order_on_def by blast

lemma sto_le_trans:
  assumes "strict_total_order_on A lt" "a \<in> A" "b \<in> A" "c \<in> A" "\<not> lt b a" "\<not> lt c b"
  shows "\<not> lt c a"
  using assms unfolding strict_total_order_on_def by metis

lemma sto_antisym:
  "strict_total_order_on A lt \<Longrightarrow> a \<in> A \<Longrightarrow> b \<in> A \<Longrightarrow> \<not> lt a b \<Longrightarrow> \<not> lt b a \<Longrightarrow> a = b"
  unfolding strict_total_order_on_def by blast

lemma sorted_imp_ascending: "sorted_wrt (\<lambda>a b. \<not> lt b a) es \<Longrightarrow> ascending lt es"
  unfolding ascending_def using sorted_wrt_nth_less [of "\<lambda>a b. \<not> lt b a" es] by auto

lemma ascending_imp_sorted:
  assumes sto: "strict_total_order_on A lt" and sub: "set es \<subseteq> A" and asc: "ascending lt es"
  shows "sorted_wrt (\<lambda>a b. \<not> lt b a) es"
proof -
  let ?P = "\<lambda>a b. a \<in> A \<and> b \<in> A \<and> \<not> lt b a"
  have "transp ?P" by (rule transpI) (use sto_le_trans [OF sto] in blast)
  moreover have "\<forall>i. Suc i < length es \<longrightarrow> ?P (es ! i) (es ! Suc i)"
    using asc sub unfolding ascending_def by (auto simp add: subset_iff)
  ultimately have "sorted_wrt ?P es" by (simp add: sorted_wrt_iff_nth_Suc_transp)
  then show ?thesis by (rule sorted_wrt_mono_rel [rotated]) simp
qed

lemma sorted_merge_runs:
  "set xs \<subseteq> A \<Longrightarrow> set ys \<subseteq> A \<Longrightarrow> sorted_wrt (\<lambda>a b. \<not> lt b a) xs
     \<Longrightarrow> sorted_wrt (\<lambda>a b. \<not> lt b a) ys \<Longrightarrow> strict_total_order_on A lt
     \<Longrightarrow> sorted_wrt (\<lambda>a b. \<not> lt b a) (merge_runs lt xs ys)"
proof (induction lt xs ys rule: merge_runs.induct)
  case (1 lt ys) then show ?case by simp
next
  case (2 lt v va) then show ?case by simp
next
  case (3 lt x xs y ys)
  note sto = "3.prems"(5)
  note tr = sto_le_trans [OF sto] and as = sto_asym [OF sto]
  show ?case
  proof (cases "lt x y")
    case True
    have "sorted_wrt (\<lambda>a b. \<not> lt b a) (merge_runs lt xs (y # ys))"
      using 3 True sto by simp
    moreover have "\<forall>z\<in>set (merge_runs lt xs (y # ys)). \<not> lt z x"
    proof
      fix z assume "z \<in> set (merge_runs lt xs (y # ys))"
      then consider "z \<in> set xs" | "z = y" | "z \<in> set ys" by (auto simp add: set_merge_runs)
      then show "\<not> lt z x"
      proof cases
        case 1 then show ?thesis using "3.prems"(3) by auto
      next
        case 2 then show ?thesis using as [of x y] True "3.prems"(1,2) by auto
      next
        case 3
        have "\<not> lt y x" using as [of x y] True "3.prems"(1,2) by auto
        moreover have "\<not> lt z y" using 3 "3.prems"(4) by auto
        ultimately show ?thesis using tr [of x y z] 3 "3.prems"(1,2) by auto
      qed
    qed
    ultimately show ?thesis using True by simp
  next
    case False
    have "sorted_wrt (\<lambda>a b. \<not> lt b a) (merge_runs lt (x # xs) ys)"
      using 3 False sto by simp
    moreover have "\<forall>z\<in>set (merge_runs lt (x # xs) ys). \<not> lt z y"
    proof
      fix z assume "z \<in> set (merge_runs lt (x # xs) ys)"
      then consider "z \<in> set xs" | "z = x" | "z \<in> set ys" by (auto simp add: set_merge_runs)
      then show "\<not> lt z y"
      proof cases
        case 1
        have "\<not> lt z x" using 1 "3.prems"(3) by auto
        then show ?thesis using tr [of y x z] False 1 "3.prems"(1,2) by auto
      next
        case 2 then show ?thesis using False by simp
      next
        case 3 then show ?thesis using "3.prems"(4) by auto
      qed
    qed
    ultimately show ?thesis using False by simp
  qed
qed

lemma merge_runs_sorted_append:
  "set xs \<subseteq> A \<Longrightarrow> set ys \<subseteq> A \<Longrightarrow> sorted_wrt (\<lambda>a b. \<not> lt b a) (xs @ ys)
     \<Longrightarrow> strict_total_order_on A lt \<Longrightarrow> merge_runs lt xs ys = xs @ ys"
proof (induction lt xs ys rule: merge_runs.induct)
  case (1 lt ys) then show ?case by simp
next
  case (2 lt v va) then show ?case by simp
next
  case (3 lt x xs y ys)
  note sto = "3.prems"(4)
  note anti = sto_antisym [OF sto]
  show ?case
  proof (cases "lt x y")
    case True
    then show ?thesis using 3 sto by simp
  next
    case False
    have all_y: "\<forall>z\<in>set (x # xs). z = y"
    proof
      fix z assume z: "z \<in> set (x # xs)"
      have "\<not> lt y z" using z "3.prems"(3) by (auto simp add: sorted_wrt_append)
      moreover have "\<not> lt z y"
      proof (cases "z = x")
        case True then show ?thesis using False by simp
      next
        case neq: False
        then have "z \<in> set xs" using z by simp
        then have "\<not> lt z x" using "3.prems"(3) by auto
        moreover have "x = y" using anti [of x y] False "3.prems" by (auto simp add: sorted_wrt_append)
        ultimately show ?thesis by simp
      qed
      ultimately show "z = y" using anti [of z y] z "3.prems"(1,2) by auto
    qed
    then have rep: "x # xs = replicate (length (x # xs)) y"
      by (metis replicate_length_same)
    have "sorted_wrt (\<lambda>a b. \<not> lt b a) ((x # xs) @ ys)"
      using "3.prems"(3) by (auto simp add: sorted_wrt_append)
    then have "merge_runs lt (x # xs) ys = (x # xs) @ ys"
      using 3 False sto by simp
    then have "merge_runs lt (x # xs) (y # ys) = y # (x # xs) @ ys" using False by simp
    also have "\<dots> = (y # replicate (length (x # xs)) y) @ ys" using rep by simp
    also have "\<dots> = (replicate (length (x # xs)) y @ [y]) @ ys"
      by (simp only: replicate_append_same)
    also have "\<dots> = (x # xs) @ y # ys" using rep by simp
    finally show ?thesis .
  qed
qed

lemma merged_block_sorted_id:
  assumes sto: "strict_total_order_on A lt" and sub: "set es \<subseteq> A"
    and srt: "sorted_wrt (\<lambda>a b. \<not> lt b a) es"
  shows "merged_block lt M I es = es"
proof -
  let ?L = "take M (drop I es)" and ?R = "take M (drop (I + M) es)"
  have e: "es = take I es @ (?L @ ?R) @ drop (I + 2 * M) es"
    using split_blocks [of es I M] by simp
  have mid: "sorted_wrt P (a @ m @ d) \<Longrightarrow> sorted_wrt P m" for P and a m d :: "'a list"
    by (simp add: sorted_wrt_append)
  have "sorted_wrt (\<lambda>a b. \<not> lt b a) (take I es @ (?L @ ?R) @ drop (I + 2 * M) es)"
    using srt e by simp
  then have "sorted_wrt (\<lambda>a b. \<not> lt b a) (?L @ ?R)" by (rule mid)
  moreover have "set ?L \<subseteq> A" "set ?R \<subseteq> A"
    using sub by (auto dest!: in_set_takeD in_set_dropD)
  ultimately have "merge_runs lt ?L ?R = ?L @ ?R" using merge_runs_sorted_append sto by blast
  then show ?thesis unfolding merged_block_def using e by simp
qed

lemma run_blocks_sorted_id:
  assumes "strict_total_order_on A lt" "set es \<subseteq> A" "sorted_wrt (\<lambda>a b. \<not> lt b a) es"
  shows "run_blocks lt M I es = es"
  using assms
proof (induction lt M I es rule: run_blocks.induct)
  case (1 lt M I es)
  have "merged_block lt M I es = es" using merged_block_sorted_id [OF "1.prems"] .
  then show ?case using 1 by (subst run_blocks.simps) simp
qed

lemma run_passes_sorted_id:
  assumes "strict_total_order_on A lt" "set es \<subseteq> A" "sorted_wrt (\<lambda>a b. \<not> lt b a) es"
  shows "run_passes lt M es = es"
  using assms
proof (induction lt M es rule: run_passes.induct)
  case (1 lt M es)
  have "run_blocks lt M 0 es = es" using run_blocks_sorted_id [OF "1.prems"] .
  then show ?case using 1 by (subst run_passes.simps) simp
qed

function merge_pairs :: "('a \<Rightarrow> 'a \<Rightarrow> bool) \<Rightarrow> nat \<Rightarrow> 'a list \<Rightarrow> 'a list" where
  "merge_pairs lt M xs =
    (if 0 < M \<and> M < length xs
     then merge_runs lt (take M xs) (take M (drop M xs)) @ merge_pairs lt M (drop (2 * M) xs)
     else xs)"
  by pat_completeness auto
termination
  by (relation "measure (\<lambda>(lt, M, xs). length xs)") auto

declare merge_pairs.simps [simp del]

function runs_sorted :: "('a \<Rightarrow> 'a \<Rightarrow> bool) \<Rightarrow> nat \<Rightarrow> 'a list \<Rightarrow> bool" where
  "runs_sorted P M xs =
    (if 0 < M \<and> M < length xs then sorted_wrt P (take M xs) \<and> runs_sorted P M (drop M xs)
     else sorted_wrt P xs)"
  by pat_completeness auto
termination
  by (relation "measure (\<lambda>(P, M, xs). length xs)") auto

declare runs_sorted.simps [simp del]

lemma merge_pairs_stop: "\<not> (0 < M \<and> M < length xs) \<Longrightarrow> merge_pairs lt M xs = xs"
  by (subst merge_pairs.simps) (simp only: if_False simp_thms)

lemma merge_pairs_step:
  "0 < M \<and> M < length xs \<Longrightarrow> merge_pairs lt M xs
     = merge_runs lt (take M xs) (take M (drop M xs)) @ merge_pairs lt M (drop (2 * M) xs)"
  by (subst merge_pairs.simps) (simp only: if_True simp_thms)

lemma run_blocks_stop: "\<not> (0 < M \<and> I + M < length es) \<Longrightarrow> run_blocks lt M I es = es"
  by (subst run_blocks.simps) (simp only: if_False simp_thms)

lemma run_blocks_step:
  "0 < M \<and> I + M < length es \<Longrightarrow> run_blocks lt M I es
     = run_blocks lt M (I + 2 * M) (merged_block lt M I es)"
  by (subst run_blocks.simps) (simp only: if_True simp_thms)

lemma runs_sorted_stop: "\<not> (0 < M \<and> M < length xs) \<Longrightarrow> runs_sorted P M xs = sorted_wrt P xs"
  by (subst runs_sorted.simps) (simp only: if_False simp_thms)

lemma runs_sorted_step:
  "0 < M \<and> M < length xs \<Longrightarrow> runs_sorted P M xs
     = (sorted_wrt P (take M xs) \<and> runs_sorted P M (drop M xs))"
  by (subst runs_sorted.simps) (simp only: if_True simp_thms)

lemma run_blocks_suffix:
  "I \<le> length es \<Longrightarrow> run_blocks lt M I es = take I es @ merge_pairs lt M (drop I es)"
proof (induction lt M I es rule: run_blocks.induct)
  case (1 lt M I es)
  show ?case
  proof (cases "0 < M \<and> I + M < length es")
    case False
    then have "\<not> (0 < M \<and> M < length (drop I es))" using "1.prems" by auto
    then have "merge_pairs lt M (drop I es) = drop I es" by (rule merge_pairs_stop)
    moreover have "run_blocks lt M I es = es" using False by (rule run_blocks_stop)
    ultimately show ?thesis by simp
  next
    case True
    let ?L = "take M (drop I es)" and ?R = "take M (drop (I + M) es)"
    let ?mg = "merge_runs lt ?L ?R"
    let ?es1 = "merged_block lt M I es"
    have es1: "?es1 = take I es @ ?mg @ drop (I + 2 * M) es" by (simp add: merged_block_def)
    have rb: "run_blocks lt M I es = run_blocks lt M (I + 2 * M) ?es1"
      using True by (rule run_blocks_step)
    have "0 < M \<and> M < length (drop I es)" using True by auto
    then have "merge_pairs lt M (drop I es)
        = merge_runs lt (take M (drop I es)) (take M (drop M (drop I es)))
          @ merge_pairs lt M (drop (2 * M) (drop I es))"
      by (rule merge_pairs_step)
    then have mp: "merge_pairs lt M (drop I es) = ?mg @ merge_pairs lt M (drop (I + 2 * M) es)"
      by (simp add: add.commute)
    show ?thesis
    proof (cases "I + 2 * M \<le> length es")
      case le: True
      have lmg: "length ?mg = 2 * M" using le True by (simp add: length_merge_runs)
      have lpre: "length (take I es @ ?mg) = I + 2 * M" using lmg "1.prems" by simp
      have "take (I + 2 * M) ?es1 = take I es @ ?mg"
        unfolding es1 using lpre by (metis append.assoc append_eq_conv_conj)
      moreover have "drop (I + 2 * M) ?es1 = drop (I + 2 * M) es"
        unfolding es1 using lpre by (metis append.assoc append_eq_conv_conj)
      moreover have "I + 2 * M \<le> length ?es1" using le by (simp add: length_merged_block)
      ultimately have "run_blocks lt M (I + 2 * M) ?es1
          = (take I es @ ?mg) @ merge_pairs lt M (drop (I + 2 * M) es)"
        using "1.IH" [OF True] by simp
      then show ?thesis using rb mp by simp
    next
      case gt: False
      then have "\<not> (0 < M \<and> I + 2 * M + M < length ?es1)" by (simp add: length_merged_block)
      then have "run_blocks lt M (I + 2 * M) ?es1 = ?es1" by (rule run_blocks_stop)
      moreover have "drop (I + 2 * M) es = []" using gt by simp
      moreover have "merge_pairs lt M [] = []" by (rule merge_pairs_stop) simp
      ultimately show ?thesis using rb mp es1 by simp
    qed
  qed
qed

lemma runs_sorted_one: "runs_sorted P 1 xs"
proof (induction P "1::nat" xs rule: runs_sorted.induct)
  case (1 P xs)
  show ?case
  proof (cases "1 < length xs")
    case True
    have "sorted_wrt P (take 1 xs)" by (rule sorted_wrt01) simp
    then show ?thesis using True 1 by (simp add: runs_sorted_step)
  next
    case False
    then have "sorted_wrt P xs" by (intro sorted_wrt01) simp
    then show ?thesis using False by (simp add: runs_sorted_stop)
  qed
qed

lemma runs_sorted_whole: "length xs \<le> M \<Longrightarrow> runs_sorted P M xs = sorted_wrt P xs"
  by (rule runs_sorted_stop) simp

lemma runs_sorted_append:
  assumes "0 < K" "length xs = K"
  shows "runs_sorted P K (xs @ ys) \<longleftrightarrow> sorted_wrt P xs \<and> (ys \<noteq> [] \<longrightarrow> runs_sorted P K ys)"
proof (cases "ys = []")
  case True
  then show ?thesis using assms by (simp add: runs_sorted_whole)
next
  case False
  then have "K < length (xs @ ys)" using assms by simp
  then show ?thesis using assms False by (simp add: runs_sorted_step)
qed

lemma merge_pairs_runs_sorted:
  "0 < M \<Longrightarrow> runs_sorted (\<lambda>a b. \<not> lt b a) M xs \<Longrightarrow> set xs \<subseteq> A \<Longrightarrow> strict_total_order_on A lt
    \<Longrightarrow> runs_sorted (\<lambda>a b. \<not> lt b a) (2 * M) (merge_pairs lt M xs)"
proof (induction lt M xs rule: merge_pairs.induct)
  case (1 lt M xs)
  let ?P = "\<lambda>a b. \<not> lt b a"
  show ?case
  proof (cases "M < length xs")
    case False
    then have "merge_pairs lt M xs = xs" by (intro merge_pairs_stop) simp
    moreover have "sorted_wrt ?P xs" using "1.prems"(2) False by (simp add: runs_sorted_whole)
    ultimately show ?thesis using False by (simp add: runs_sorted_whole)
  next
    case True
    let ?L = "take M xs" and ?R = "take M (drop M xs)" and ?rest = "drop (2 * M) xs"
    let ?mg = "merge_runs lt ?L ?R"
    have c: "0 < M \<and> M < length xs" using True "1.prems"(1) by simp
    have mp: "merge_pairs lt M xs = ?mg @ merge_pairs lt M ?rest"
      using c by (rule merge_pairs_step)
    have sL: "sorted_wrt ?P ?L" and rs1: "runs_sorted ?P M (drop M xs)"
      using "1.prems"(2) c by (simp_all add: runs_sorted_step)
    have sR: "sorted_wrt ?P ?R" and rs2: "runs_sorted ?P M ?rest"
    proof -
      show "sorted_wrt ?P ?R"
      proof (cases "M < length (drop M xs)")
        case True
        then show ?thesis using rs1 "1.prems"(1) by (simp add: runs_sorted_step)
      next
        case False
        then have "sorted_wrt ?P (drop M xs)" using rs1 by (simp add: runs_sorted_stop)
        then show ?thesis using False by simp
      qed
      show "runs_sorted ?P M ?rest"
      proof (cases "M < length (drop M xs)")
        case True
        then have "runs_sorted ?P M (drop M (drop M xs))"
          using rs1 "1.prems"(1) by (simp add: runs_sorted_step)
        then show ?thesis by (simp add: mult_2)
      next
        case False
        then have "?rest = []" by simp
        then show ?thesis by (simp add: runs_sorted_whole)
      qed
    qed
    have sub: "set ?L \<subseteq> A" "set ?R \<subseteq> A" "set ?rest \<subseteq> A"
      using "1.prems"(3) by (auto dest!: in_set_takeD in_set_dropD)
    have smg: "sorted_wrt ?P ?mg" using sorted_merge_runs [OF sub(1,2) sL sR "1.prems"(4)] .
    have IH: "runs_sorted ?P (2 * M) (merge_pairs lt M ?rest)"
      using "1.IH" [OF c "1.prems"(1) rs2 sub(3) "1.prems"(4)] .
    show ?thesis
    proof (cases "2 * M \<le> length xs")
      case le: True
      then have "length ?mg = 2 * M" using True by (simp add: length_merge_runs)
      then show ?thesis unfolding mp using smg IH "1.prems"(1)
        by (subst runs_sorted_append) simp_all
    next
      case gt: False
      then have "?rest = []" by simp
      moreover have "merge_pairs lt M [] = []" by (rule merge_pairs_stop) simp
      moreover have "length ?mg \<le> 2 * M" using gt by (simp add: length_merge_runs)
      ultimately show ?thesis unfolding mp using smg by (simp add: runs_sorted_whole)
    qed
  qed
qed

lemma run_passes_sorted:
  "0 < M \<Longrightarrow> runs_sorted (\<lambda>a b. \<not> lt b a) M es \<Longrightarrow> set es \<subseteq> A \<Longrightarrow> strict_total_order_on A lt
    \<Longrightarrow> sorted_wrt (\<lambda>a b. \<not> lt b a) (run_passes lt M es)"
proof (induction lt M es rule: run_passes.induct)
  case (1 lt M es)
  show ?case
  proof (cases "M \<le> length es")
    case False
    then have "run_passes lt M es = es" by (subst run_passes.simps) simp
    then show ?thesis using "1.prems"(2) False by (simp add: runs_sorted_whole)
  next
    case True
    have c: "0 < M \<and> M \<le> length es" using True "1.prems"(1) by simp
    have rb: "run_blocks lt M 0 es = merge_pairs lt M es"
      using run_blocks_suffix [of 0 es lt M] by simp
    have rs: "runs_sorted (\<lambda>a b. \<not> lt b a) (2 * M) (run_blocks lt M 0 es)"
      unfolding rb using merge_pairs_runs_sorted [OF "1.prems"] .
    have sub: "set (run_blocks lt M 0 es) \<subseteq> A"
      using "1.prems"(3) by (metis mset_run_blocks set_mset_mset)
    have "sorted_wrt (\<lambda>a b. \<not> lt b a) (run_passes lt (2 * M) (run_blocks lt M 0 es))"
      using "1.IH" [OF c _ rs sub "1.prems"(4)] "1.prems"(1) by simp
    then show ?thesis using c by (subst run_passes.simps) simp
  qed
qed

lemma elems_Suc: "elems S (Suc N) bytes = take S bytes # elems S N (drop S bytes)"
proof -
  have "[0..<Suc N] = 0 # map Suc [0..<N]" by (simp add: upt_conv_Cons map_Suc_upt del: upt_Suc)
  then have "elems S (Suc N) bytes
      = take S (drop 0 bytes) # map (\<lambda>k. take S (drop (Suc k * S) bytes)) [0..<N]"
    unfolding elems_def by (simp add: comp_def del: upt_Suc)
  moreover have "\<And>k. drop (Suc k * S) bytes = drop (k * S) (drop S bytes)"
    by (simp add: add.commute)
  ultimately show ?thesis unfolding elems_def by simp
qed

lemma elems_0: "elems S 0 bytes = []"
  by (simp add: elems_def)

lemma length_elems: "length (elems S N bytes) = N"
  by (simp add: elems_def)

lemma elems_wf: "length bytes = N * S \<Longrightarrow> \<forall>e\<in>set (elems S N bytes). length e = S"
proof (induction N arbitrary: bytes)
  case 0 then show ?case by (simp add: elems_0)
next
  case (Suc N)
  have "length (drop S bytes) = N * S" using Suc.prems by simp
  then have "\<forall>e\<in>set (elems S N (drop S bytes)). length e = S" by (rule Suc.IH)
  then show ?case using Suc.prems by (simp add: elems_Suc)
qed

lemma concat_elems: "length bytes = N * S \<Longrightarrow> concat (elems S N bytes) = bytes"
proof (induction N arbitrary: bytes)
  case 0 then show ?case by (simp add: elems_0)
next
  case (Suc N)
  have "length (drop S bytes) = N * S" using Suc.prems by simp
  then have "concat (elems S N (drop S bytes)) = drop S bytes" by (rule Suc.IH)
  then show ?case by (simp add: elems_Suc)
qed

lemma elems_concat:
  "\<forall>e\<in>set es. length e = S \<Longrightarrow> elems S (length es) (concat es) = es"
proof (induction es)
  case Nil then show ?case by (simp add: elems_0)
next
  case (Cons e es)
  then show ?case by (simp add: elems_Suc)
qed

lemma nvMergeSort_refines:
  assumes "length array = unat n * unat sz" and "unat n * unat sz < 2 ^ 32"
    and "unat n < 2 ^ 31" and "unat n * unat sz \<le> length scratch"
  shows "\<exists>array' scratch'. nvMergeSort array n scratch sz lt = Some (Inr (array', scratch'))
            \<and> length array' = length array \<and> length scratch' = length scratch
            \<and> elems (unat sz) (unat n) array' = run_passes lt 1 (elems (unat sz) (unat n) array)"
proof -
  let ?es = "elems (unat sz) (unat n) array"
  have wf: "\<forall>e\<in>set ?es. length e = unat sz" using elems_wf [OF assms(1)] .
  have len: "length ?es = unat n" by (rule length_elems)
  have c: "concat ?es = array" using concat_elems [OF assms(1)] .
  have one: "1 \<le> unat (1 :: 32 word)" by simp
  obtain scr' where r: "pass_loop sz lt n 1 (concat ?es) scratch
        = Some (Inr (concat (run_passes lt (unat (1 :: 32 word)) ?es), scr'))"
    and l: "length scr' = length scratch"
    using pass_loop_correct [OF assms(2,3) wf len one assms(4)] by blast
  let ?es' = "run_passes lt 1 ?es"
  have wf': "\<forall>e\<in>set ?es'. length e = unat sz"
    using wf by (metis mset_run_passes set_mset_mset)
  have len': "length ?es' = unat n" using len by (simp add: length_run_passes)
  have "elems (unat sz) (unat n) (concat ?es') = ?es'"
    using elems_concat [OF wf'] len' by simp
  moreover have "length (concat ?es') = length array"
    using length_concat_chunks [OF wf'] len' assms(1) by simp
  ultimately show ?thesis using r l c unfolding nvMergeSort_def by simp
qed

lemma nvMergeSort_sorts:
  assumes "length array = unat n * unat sz" and "unat n * unat sz < 2 ^ 32"
    and "unat n < 2 ^ 31" and "unat n * unat sz \<le> length scratch"
    and "strict_total_order_on (set (elems (unat sz) (unat n) array)) lt"
  shows "\<exists>array' scratch'. nvMergeSort array n scratch sz lt = Some (Inr (array', scratch'))
            \<and> length array' = length array \<and> length scratch' = length scratch
            \<and> ascending lt (elems (unat sz) (unat n) array')
            \<and> mset (elems (unat sz) (unat n) array') = mset (elems (unat sz) (unat n) array)"
proof -
  let ?es = "elems (unat sz) (unat n) array"
  obtain array' scratch' where r: "nvMergeSort array n scratch sz lt = Some (Inr (array', scratch'))"
    "length array' = length array" "length scratch' = length scratch"
    "elems (unat sz) (unat n) array' = run_passes lt 1 ?es"
    using nvMergeSort_refines [OF assms(1-4)] by blast
  have "sorted_wrt (\<lambda>a b. \<not> lt b a) (run_passes lt 1 ?es)"
    using run_passes_sorted [OF _ runs_sorted_one subset_refl assms(5)] by simp
  then have "ascending lt (run_passes lt 1 ?es)" by (rule sorted_imp_ascending)
  then show ?thesis using r by (simp add: mset_run_passes)
qed

lemma nvMergeSort_permutes:
  assumes "length array = unat n * unat sz" and "unat n * unat sz < 2 ^ 32"
    and "unat n < 2 ^ 31" and "unat n * unat sz \<le> length scratch"
  shows "\<exists>array' scratch'. nvMergeSort array n scratch sz lt = Some (Inr (array', scratch'))
            \<and> mset (elems (unat sz) (unat n) array') = mset (elems (unat sz) (unat n) array)"
proof -
  obtain array' scratch' where "nvMergeSort array n scratch sz lt = Some (Inr (array', scratch'))"
    "elems (unat sz) (unat n) array' = run_passes lt 1 (elems (unat sz) (unat n) array)"
    using nvMergeSort_refines [OF assms, of lt] by blast
  then show ?thesis by (simp add: mset_run_passes)
qed

section \<open>Merge sort: one step of the merge\<close>


lemma portMemCopy_Inr_eq:
  "portMemCopy dst doff src soff len = Inr dst' \<Longrightarrow>
     dst' = take doff dst @ take len (drop soff src) @ drop (doff + len) dst"
  by (auto simp add: portMemCopy_def split: if_splits)

lemma portMemCopy_Inr:
  "portMemCopy dst doff src soff len = Inr dst' \<Longrightarrow>
     length dst' = length dst \<and> take doff dst' = take doff dst
     \<and> take len (drop doff dst') = take len (drop soff src)"
  by (auto simp add: portMemCopy_def min_def split: if_splits)







section \<open>Merge sort: when the loops return\<close>

text \<open>
  The inner loop returns when \<open>i + 2 * m\<close> cannot wrap around, the outer loop when
  \<open>m * 2\<close> cannot: for \<open>n < 2^31\<close> the call returns, whatever the buffers and the comparator.
\<close>

lemma block_loop_returns:
  assumes "1 \<le> unat m" and "unat m \<le> unat n" and "unat n + unat m \<le> 2 ^ 32"
  shows "\<exists>r. block_loop sz lt n m i array scr = Some r"
proof (induction "unat n - unat i" arbitrary: i array scr rule: less_induct)
  case less
  have nm: "unat (n - m) = unat n - unat m" using assms(2) by (simp add: unat_sub word_le_nat_alt)
  show ?case
  proof (cases "i < n - m")
    case False
    then show ?thesis by (subst block_loop.simps) simp
  next
    case True
    then have hi: "unat i + unat m < unat n" using nm by (simp add: word_less_nat_alt)
    have nw: "unat i + 2 * unat m < 2 ^ 32" using hi assms(3) by simp
    have m2: "unat (2 * m) = 2 * unat m" using nw unat_mult_lem [of 2 m] by simp
    have i2: "unat (i + 2 * m) = unat i + 2 * unat m" using nw m2 unat_add_lem [of i "2 * m"] by simp
    have dec: "unat n - unat (i + 2 * m) < unat n - unat i" using i2 hi assms(1) by simp
    show ?thesis
    proof (cases "merge_block sz lt n m i array scr")
      case (Inl e)
      then show ?thesis using True by (subst block_loop.simps) simp
    next
      case (Inr p)
      obtain a' s' where p: "p = (a', s')" by (cases p)
      have "\<exists>r. block_loop sz lt n m (i + 2 * m) a' s' = Some r" using less.hyps [OF dec] .
      then show ?thesis using True Inr p by (subst block_loop.simps) simp
    qed
  qed
qed

lemma pass_loop_returns:
  assumes "unat n < 2 ^ 31"
  shows "1 \<le> unat m \<Longrightarrow> \<exists>r. pass_loop sz lt n m array scr = Some r"
proof (induction "Suc (unat n) - unat m" arbitrary: m array scr rule: less_induct)
  case less
  show ?case
  proof (cases "m \<le> n")
    case False
    then show ?thesis by (subst pass_loop.simps) simp
  next
    case True
    then have mn: "unat m \<le> unat n" by (simp add: word_le_nat_alt)
    have nm: "unat n + unat m \<le> 2 ^ 32" using mn assms by simp
    obtain r where b: "block_loop sz lt n m 0 array scr = Some r"
      using block_loop_returns [OF less.prems mn nm] by blast
    have m2: "unat (m * 2) = 2 * unat m" using mn assms unat_mult_lem [of m 2] by simp
    have dec: "Suc (unat n) - unat (m * 2) < Suc (unat n) - unat m" using m2 mn less.prems by simp
    have one: "1 \<le> unat (m * 2)" using m2 less.prems by simp
    show ?thesis
    proof (cases r)
      case (Inl e)
      then show ?thesis using True b by (subst pass_loop.simps) simp
    next
      case (Inr p)
      obtain a' s' where p: "p = (a', s')" by (cases p)
      have "\<exists>r. pass_loop sz lt n (m * 2) a' s' = Some r" using less.hyps [OF dec one] .
      then show ?thesis using True b Inr p by (subst pass_loop.simps) simp
    qed
  qed
qed

text \<open>
  No step changes the length of a buffer.  With \<open>m = 0\<close> the inner loop does not advance:
  \<open>i\<close> stays \<open>0\<close>, the condition \<open>i < n - m\<close> stays true, and the block, one element long,
  is merged again and again.
\<close>

lemma merge_loop_length:
  "merge_loop sz lt array loMax hiMax lo hi dest mergeArray = Inr (lo', hi', dest', mergeArray')
     \<Longrightarrow> length mergeArray' = length mergeArray"
proof (induction sz lt array loMax hiMax lo hi dest mergeArray rule: merge_loop.induct)
  case (1 sz lt array loMax hiMax lo hi dest mergeArray)
  note eq = "1.prems" [unfolded merge_loop.simps [of sz lt array loMax hiMax lo hi dest mergeArray]]
  obtain a where a: "peek array (EL sz lo) (unat sz) = Inr a"
    using eq by (cases "peek array (EL sz lo) (unat sz)") auto
  obtain b where b: "peek array (EL sz hi) (unat sz) = Inr b"
    using eq a by (cases "peek array (EL sz hi) (unat sz)") auto
  show ?case
  proof (cases "lt a b")
    case True
    obtain s1 where s1: "portMemCopy mergeArray dest array (EL sz lo) (unat sz) = Inr s1"
      using eq a b True by (cases "portMemCopy mergeArray dest array (EL sz lo) (unat sz)") auto
    have l: "length s1 = length mergeArray" using portMemCopy_Inr [OF s1] by simp
    show ?thesis
    proof (cases "loMax \<le> lo + 1")
      case T: True
      then show ?thesis using eq a b True s1 l by simp
    next
      case F: False
      then have "merge_loop sz lt array loMax hiMax (lo + 1) hi (dest + unat sz) s1
                  = Inr (lo', hi', dest', mergeArray')"
        using eq a b True s1 by simp
      then show ?thesis using "1.IH"(1) [OF a b True s1 F] l by simp
    qed
  next
    case False
    obtain s1 where s1: "portMemCopy mergeArray dest array (EL sz hi) (unat sz) = Inr s1"
      using eq a b False by (cases "portMemCopy mergeArray dest array (EL sz hi) (unat sz)") auto
    have l: "length s1 = length mergeArray" using portMemCopy_Inr [OF s1] by simp
    show ?thesis
    proof (cases "hiMax \<le> hi + 1")
      case T: True
      then show ?thesis using eq a b False s1 l by simp
    next
      case F: False
      then have "merge_loop sz lt array loMax hiMax lo (hi + 1) (dest + unat sz) s1
                  = Inr (lo', hi', dest', mergeArray')"
        using eq a b False s1 by simp
      then show ?thesis using "1.IH"(2) [OF a b False s1 F] l by simp
    qed
  qed
qed

lemma copy_remaining_length:
  "copy_remaining sz array kMax k dest mergeArray = Inr (dest', mergeArray')
     \<Longrightarrow> length mergeArray' = length mergeArray"
proof (induction sz array kMax k dest mergeArray rule: copy_remaining.induct)
  case (1 sz array kMax k dest mergeArray)
  note eq = "1.prems" [unfolded copy_remaining.simps [of sz array kMax k dest mergeArray]]
  show ?case
  proof (cases "k < kMax")
    case False
    then show ?thesis using eq by simp
  next
    case True
    obtain s1 where s1: "portMemCopy mergeArray dest array (EL sz k) (unat sz) = Inr s1"
      using eq True by (cases "portMemCopy mergeArray dest array (EL sz k) (unat sz)") auto
    have l: "length s1 = length mergeArray" using portMemCopy_Inr [OF s1] by simp
    have "copy_remaining sz array kMax (k + 1) (dest + unat sz) s1 = Inr (dest', mergeArray')"
      using eq True s1 by simp
    then show ?thesis using "1.IH" [OF True s1] l by simp
  qed
qed

lemma merge_block_length:
  assumes "merge_block sz lt n m i array mergeArray = Inr (array', mergeArray')"
  shows "length array' = length array \<and> length mergeArray' = length mergeArray"
proof -
  note eq = assms [unfolded merge_block_def Let_def]
  obtain lo hi d1 s1 where ml: "merge_loop sz lt array (i + m) (min n (i + 2 * m)) i (i + m) 0
      mergeArray = Inr (lo, hi, d1, s1)"
    using eq by (cases "merge_loop sz lt array (i + m) (min n (i + 2 * m)) i (i + m) 0 mergeArray")
      auto
  obtain d2 s2 where c1: "copy_remaining sz array (i + m) lo d1 s1 = Inr (d2, s2)"
    using eq ml by (cases "copy_remaining sz array (i + m) lo d1 s1") auto
  obtain d3 s3 where c2: "copy_remaining sz array (min n (i + 2 * m)) hi d2 s2 = Inr (d3, s3)"
    using eq ml c1 by (cases "copy_remaining sz array (min n (i + 2 * m)) hi d2 s2") auto
  obtain a1 where pc: "portMemCopy array (EL sz i) s3 0 (unat (of_nat d3 :: 32 word)) = Inr a1"
    using eq ml c1 c2
    by (cases "portMemCopy array (EL sz i) s3 0 (unat (of_nat d3 :: 32 word))") auto
  have r: "array' = a1" "mergeArray' = s3" using eq ml c1 c2 pc by simp_all
  have "length s3 = length mergeArray"
    using merge_loop_length [OF ml] copy_remaining_length [OF c1] copy_remaining_length [OF c2]
    by simp
  moreover have "length a1 = length array" using portMemCopy_Inr [OF pc] by simp
  ultimately show ?thesis using r by simp
qed

lemma block_loop_length:
  assumes "block_loop sz lt n m i array mergeArray = Some r"
  shows "\<forall>array' mergeArray'. r = Inr (array', mergeArray')
           \<longrightarrow> length array' = length array \<and> length mergeArray' = length mergeArray"
proof (rule block_loop.raw_induct [where P = "\<lambda>sz lt n m i array mergeArray r.
      \<forall>array' mergeArray'. r = Inr (array', mergeArray')
           \<longrightarrow> length array' = length array \<and> length mergeArray' = length mergeArray",
      OF _ assms], goal_cases)
  case (1 bl sz lt n m i array mergeArray r)
  show ?case
  proof (cases "i < n - m")
    case False
    then show ?thesis using 1(2) by auto
  next
    case True
    show ?thesis
    proof (cases "merge_block sz lt n m i array mergeArray")
      case (Inl e)
      then show ?thesis using True 1(2) by auto
    next
      case (Inr p)
      obtain a' s' where p: "p = (a', s')" by (cases p)
      have b: "bl sz lt n m (i + 2 * m) a' s' = Some r" using 1(2) True Inr p by simp
      have l: "length a' = length array \<and> length s' = length mergeArray"
        using merge_block_length Inr p by blast
      show ?thesis using 1(1) [OF b] l by simp
    qed
  qed
qed

lemma merge_block_zero:
  assumes "unat sz \<le> length array" and "unat sz \<le> length mergeArray"
  shows "\<exists>array' mergeArray'. merge_block sz lt n 0 0 array mergeArray = Inr (array', mergeArray')"
proof -
  have E: "EL sz 0 = 0" by (simp add: EL_def)
  obtain a where a: "peek array 0 (unat sz) = Inr a" using assms(1) by (simp add: peek_def)
  obtain s1 where s1: "portMemCopy mergeArray 0 array 0 (unat sz) = Inr s1"
    using assms by (simp add: portMemCopy_def)
  have l1: "length s1 = length mergeArray" using portMemCopy_Inr [OF s1] by simp
  have ml: "merge_loop sz lt array 0 0 0 0 0 mergeArray
        = (if lt a a then Inr (1, 0, unat sz, s1) else Inr (0, 1, unat sz, s1))"
    by (subst merge_loop.simps) (simp add: E a s1)
  have c1: "\<And>k d s. copy_remaining sz array 0 k d s = Inr (d, s)"
    by (subst copy_remaining.simps) simp
  have u: "unat (of_nat (unat sz) :: 32 word) = unat sz" by simp
  obtain a1 where a1: "portMemCopy array 0 s1 0 (unat sz) = Inr a1"
    using assms l1 by (simp add: portMemCopy_def)
  show ?thesis unfolding merge_block_def Let_def by (simp add: ml c1 E u a1)
qed

lemma block_loop_zero_diverges_aux:
  assumes "block_loop sz lt n m i array mergeArray = Some r"
  shows "\<not> (m = 0 \<and> i = 0 \<and> 0 < n \<and> unat sz \<le> length array \<and> unat sz \<le> length mergeArray)"
proof (rule block_loop.raw_induct [where P = "\<lambda>sz lt n m i array mergeArray r.
      \<not> (m = 0 \<and> i = 0 \<and> 0 < n \<and> unat sz \<le> length array \<and> unat sz \<le> length mergeArray)",
      OF _ assms], goal_cases)
  case (1 bl sz lt n m i array mergeArray r)
  show ?case
  proof
    assume c: "m = 0 \<and> i = 0 \<and> 0 < n \<and> unat sz \<le> length array \<and> unat sz \<le> length mergeArray"
    obtain a' s' where mb: "merge_block sz lt n 0 0 array mergeArray = Inr (a', s')"
      using merge_block_zero c by blast
    have l: "length a' = length array \<and> length s' = length mergeArray"
      using merge_block_length [OF mb] .
    have b: "bl sz lt n m (i + 2 * m) a' s' = Some r" using 1(2) c mb by simp
    show False using 1(1) [OF b] c l by simp
  qed
qed

lemma block_loop_zero_diverges:
  assumes "0 < n" and "unat sz \<le> length array" and "unat sz \<le> length mergeArray"
  shows "block_loop sz lt n 0 0 array mergeArray = None"
proof (cases "block_loop sz lt n 0 0 array mergeArray")
  case None then show ?thesis .
next
  case (Some r)
  then show ?thesis using block_loop_zero_diverges_aux [OF Some] assms by simp
qed

text \<open>
  The block sizes of the passes are \<open>2^k mod 2^32\<close>.  For \<open>n \<ge> 2^31\<close> each of them up to
  \<open>2^31\<close> is at most \<open>n\<close>, and the next one is \<open>0\<close>.
\<close>

lemma unat_two_power_32: "k < 32 \<Longrightarrow> unat (of_nat (2 ^ k) :: 32 word) = 2 ^ k"
proof -
  assume "k < 32"
  then have "(2::nat) ^ k < 2 ^ 32" by (rule power_strict_increasing) simp
  then show ?thesis by (rule unat_of_nat_32)
qed

lemma elem_fits:
  assumes "1 \<le> N" and "N * S \<le> L" shows "S \<le> (L::nat)"
proof -
  obtain N' where "N = Suc N'" using assms(1) by (cases N) simp_all
  then show ?thesis using assms(2) by simp
qed

lemma pass_loop_large_aux:
  assumes "pass_loop sz lt n m array mergeArray = Some r"
  shows "2 ^ 31 \<le> unat n \<and> (\<exists>k\<le>32. m = of_nat (2 ^ k))
           \<and> unat sz \<le> length array \<and> unat sz \<le> length mergeArray \<longrightarrow> (\<exists>e. r = Inl e)"
proof (rule pass_loop.raw_induct [where P = "\<lambda>sz lt n m array mergeArray r.
      2 ^ 31 \<le> unat n \<and> (\<exists>k\<le>32. m = of_nat (2 ^ k))
           \<and> unat sz \<le> length array \<and> unat sz \<le> length mergeArray \<longrightarrow> (\<exists>e. r = Inl e)",
      OF _ assms], goal_cases)
  case (1 pl sz lt n m array mergeArray r)
  show ?case
  proof (intro impI)
    assume c: "2 ^ 31 \<le> unat n \<and> (\<exists>k\<le>32. m = of_nat (2 ^ k))
           \<and> unat sz \<le> length array \<and> unat sz \<le> length mergeArray"
    then obtain k where k: "k \<le> 32" "m = of_nat (2 ^ k)" by blast
    have n0: "0 < n" using c by (simp add: word_less_nat_alt)
    have m32: "k = 32 \<Longrightarrow> m = 0" using k(2) by simp
    have mk: "k < 32 \<Longrightarrow> unat m = 2 ^ k"
      unfolding k(2) by (rule unat_two_power_32)
    have mn: "m \<le> n"
    proof (cases "k = 32")
      case True then show ?thesis using m32 by simp
    next
      case False
      then have "k \<le> 31" using k(1) by simp
      then have "(2::nat) ^ k \<le> 2 ^ 31" by (rule power_increasing) simp
      then show ?thesis using mk False k(1) c by (simp add: word_le_nat_alt)
    qed
    show "\<exists>e. r = Inl e"
    proof (cases "block_loop sz lt n m 0 array mergeArray")
      case None
      then show ?thesis using 1(2) mn by simp
    next
      case (Some b)
      show ?thesis
      proof (cases b)
        case (Inl e)
        then have "r = Inl e" using 1(2) mn Some by simp
        then show ?thesis by blast
      next
        case (Inr p)
        obtain a' s' where p: "p = (a', s')" by (cases p)
        have l: "length a' = length array \<and> length s' = length mergeArray"
          using block_loop_length [OF Some] Inr p by simp
        have k32: "k \<noteq> 32"
        proof
          assume "k = 32"
          then have "block_loop sz lt n m 0 array mergeArray = None"
            using block_loop_zero_diverges [OF n0] c m32 by simp
          then show False using Some by simp
        qed
        have nx: "pl sz lt n (m * 2) a' s' = Some r" using 1(2) mn Some Inr p by simp
        have m2: "m * 2 = of_nat (2 ^ Suc k)" unfolding k(2) by simp
        have "\<exists>j\<le>32. m * 2 = of_nat (2 ^ j)" using m2 k32 k(1)
          by (intro exI [of _ "Suc k"]) simp
        then show ?thesis using 1(1) [OF nx] c l by simp
      qed
    qed
  qed
qed

lemma nvMergeSort_large_no_result:
  assumes "2 ^ 31 \<le> unat n" and "length array = unat n * unat sz"
    and "unat n * unat sz \<le> length scratch"
  shows "nvMergeSort array n scratch sz lt \<noteq> Some (Inr (array', scratch'))"
proof
  assume r: "nvMergeSort array n scratch sz lt = Some (Inr (array', scratch'))"
  have n1: "1 \<le> unat n" using assms(1) by simp
  have s: "unat sz \<le> length array" "unat sz \<le> length scratch"
    using elem_fits [OF n1, of "unat sz"] assms(2,3) by simp_all
  have "\<exists>k\<le>32. (1 :: 32 word) = of_nat (2 ^ k)" by (intro exI [of _ 0]) simp
  then show False
    using pass_loop_large_aux [OF r [unfolded nvMergeSort_def]] assms(1) s by simp
qed

lemma pass_loop_diverges:
  assumes n: "unat n = 2 ^ 31" and sm: "unat n * unat sz < 2 ^ 32"
  shows "\<forall>e\<in>set es. length e = unat sz \<Longrightarrow> length es = unat n
    \<Longrightarrow> unat n * unat sz \<le> length scr \<Longrightarrow> k \<le> 31
    \<Longrightarrow> pass_loop sz lt n (of_nat (2 ^ k)) (concat es) scr = None"
proof (induction "31 - k" arbitrary: k es scr rule: less_induct)
  case less
  define m :: "32 word" where "m = of_nat (2 ^ k)"
  have mk: "unat m = 2 ^ k" unfolding m_def using less.prems(4) by (intro unat_two_power_32) simp
  have m1: "1 \<le> unat m" unfolding mk by simp
  have mn: "unat m \<le> unat n" unfolding mk n using less.prems(4) by (intro power_increasing) simp_all
  have nm: "unat n + unat m \<le> 2 ^ 32" using mn n by simp
  have le: "m \<le> n" using mn by (simp add: word_le_nat_alt)
  obtain scr' where b: "block_loop sz lt n m 0 (concat es) scr
        = Some (Inr (concat (run_blocks lt (unat m) (unat (0 :: 32 word)) es), scr'))"
    and l: "length scr' = length scr"
    using block_loop_correct [OF less.prems(1,2) sm m1 mn nm less.prems(3)] by blast
  let ?es' = "run_blocks lt (unat m) (unat (0 :: 32 word)) es"
  have wf': "\<forall>e\<in>set ?es'. length e = unat sz"
    using less.prems(1) by (metis mset_run_blocks set_mset_mset)
  have len': "length ?es' = unat n" using less.prems(2) by (simp add: length_run_blocks)
  have room': "unat n * unat sz \<le> length scr'" using less.prems(3) l by simp
  have m2: "m * 2 = of_nat (2 ^ Suc k)" unfolding m_def by simp
  have nx: "pass_loop sz lt n (m * 2) (concat ?es') scr' = None"
  proof (cases "k = 31")
    case True
    then have z: "m * 2 = 0" unfolding m2 by simp
    have n0: "0 < n" using n by (simp add: word_less_nat_alt)
    have n1: "1 \<le> unat n" using n by simp
    have s: "unat sz \<le> length (concat ?es')" "unat sz \<le> length scr'"
      using elem_fits [OF n1, of "unat sz"] length_concat_chunks [OF wf'] len' room' by simp_all
    have "block_loop sz lt n 0 0 (concat ?es') scr' = None"
      using block_loop_zero_diverges [OF n0 s] .
    then show ?thesis unfolding z by (subst pass_loop.simps) simp
  next
    case False
    then have d: "31 - Suc k < 31 - k" and k': "Suc k \<le> 31" using less.prems(4) by simp_all
    show ?thesis unfolding m2 using less.hyps [OF d wf' len' room' k'] .
  qed
  show ?case unfolding m_def [symmetric] using le b nx by (subst pass_loop.simps) simp
qed

lemma nvMergeSort_diverges:
  assumes "unat n = 2 ^ 31" and "length array = unat n * unat sz"
    and "unat n * unat sz < 2 ^ 32" and "unat n * unat sz \<le> length scratch"
  shows "nvMergeSort array n scratch sz lt = None"
proof -
  let ?es = "elems (unat sz) (unat n) array"
  have wf: "\<forall>e\<in>set ?es. length e = unat sz" using elems_wf [OF assms(2)] .
  have len: "length ?es = unat n" by (rule length_elems)
  have c: "concat ?es = array" using concat_elems [OF assms(2)] .
  have k: "(0::nat) \<le> 31" by simp
  show ?thesis unfolding nvMergeSort_def
    using pass_loop_diverges [OF assms(1,3) wf len assms(4) k, of lt] c by simp
qed

text \<open>
  Claim C3, as stated for every value of the 32-bit parameter \<open>n\<close>, fails at \<open>n = 2^31\<close>.  On
  an array of \<open>2^31\<close> elements of one byte, with a scratch buffer of \<open>2^31\<close> bytes, the passes
  with \<open>m = 1, 2, \<dots>, 2^31\<close> return; then \<open>m *= 2\<close> gives \<open>0\<close>, \<open>m <= n\<close> holds, and the inner
  loop \<^verbatim>\<open>for (i = 0; i < (n - m); i += 2 * m)\<close> never leaves \<open>i = 0\<close>: the call does not
  return.
\<close>

theorem nvMergeSort_diverges_counterexample:
  "nvMergeSort (replicate 2147483648 0) 2147483648 (replicate 2147483648 0) 1
     (\<lambda>a b. hd a < hd b) = None"
  by (rule nvMergeSort_diverges) simp_all

text \<open>
  Claim C3, amended.  For every \<open>n < 2^31\<close>, every comparator, every element size and all
  buffers, \<^verbatim>\<open>nvMergeSort\<close> returns (in the model: the result is not \<open>None\<close>).
\<close>

theorem nvMergeSort_returns:
  assumes "unat n < 2 ^ 31"
  shows "\<exists>r. nvMergeSort array n scratch sz lt = Some r"
  unfolding nvMergeSort_def using pass_loop_returns [OF assms, of 1] by simp

theorem nvMergeSort_returns_witness:
  "unat (5 :: 32 word) < 2 ^ 31
   \<and> (\<exists>r. nvMergeSort [5, 3, 1, 4, 2] 5 [0, 0, 0, 0, 0] 1 (\<lambda>a b. hd a < hd b) = Some r)
   \<and> nvMergeSort [5, 3, 1, 4, 2] 5 [0, 0, 0, 0, 0] 1 (\<lambda>a b. hd a < hd b)
       = Some (Inr ([1, 2, 3, 4, 5], [1, 2, 3, 4, 5]))"
proof -
  have a: "unat (5 :: 32 word) < 2 ^ 31" by simp
  have b: "nvMergeSort [5, 3, 1, 4, 2] 5 [0, 0, 0, 0, 0] 1 (\<lambda>a b. hd a < hd b)
       = Some (Inr ([1, 2, 3, 4, 5], [1, 2, 3, 4, 5]))" by code_simp
  show ?thesis using nvMergeSort_returns [OF a] a b by simp
qed


lemma nvMergeSort_4GiB_run:
  fixes lt :: "byte list \<Rightarrow> byte list \<Rightarrow> bool"
  assumes "\<not> lt (replicate 2147483649 2) (replicate 2147483649 1)"
  shows "nvMergeSort (replicate 2147483649 2 @ replicate 2147483649 1) 2
           (replicate 4294967298 0) 2147483649 lt
         = Some (Inr (1 # 1 # replicate 2147483647 2 @ replicate 2147483649 1,
                      replicate 2147483649 1 @ replicate 2147483649 2))"
proof -
  let ?A = "replicate 2147483649 (2 :: byte) @ replicate 2147483649 1"
  let ?S0 = "replicate 4294967298 (0 :: byte)"
  let ?S1 = "replicate 2147483649 (1 :: byte) @ replicate 2147483649 0"
  let ?S2 = "replicate 2147483649 (1 :: byte) @ replicate 2147483649 2"
  let ?A' = "1 # 1 # replicate 2147483647 (2 :: byte) @ replicate 2147483649 1"
  have E0: "EL 2147483649 0 = 0" and E1: "EL 2147483649 1 = 2147483649"
    by (simp_all add: EL_def)
  have u: "unat (2147483649 :: 32 word) = 2147483649" by simp
  have pa: "peek ?A 0 2147483649 = Inr (replicate 2147483649 2)"
    by (simp add: peek_def)
  have pb: "peek ?A 2147483649 2147483649 = Inr (replicate 2147483649 1)"
    by (simp add: peek_def)
  have c1: "portMemCopy ?S0 0 ?A 2147483649 2147483649 = Inr ?S1"
    by (simp add: portMemCopy_def replicate_add [symmetric])
  have ml: "merge_loop 2147483649 lt ?A 1 2 0 1 0 ?S0 = Inr (0, 2, 2147483649, ?S1)"
    by (subst merge_loop.simps) (simp add: E0 E1 u pa pb c1 assms)
  have c2: "portMemCopy ?S1 2147483649 ?A 0 2147483649 = Inr ?S2"
    by (simp add: portMemCopy_def)
  have cr1: "copy_remaining 2147483649 ?A 1 0 2147483649 ?S1 = Inr (4294967298, ?S2)"
    by (subst copy_remaining.simps, simp add: E0 u c2) (subst copy_remaining.simps, simp)
  have cr2: "copy_remaining 2147483649 ?A 2 2 4294967298 ?S2 = Inr (4294967298, ?S2)"
    by (subst copy_remaining.simps) simp
  have w: "unat (of_nat 4294967298 :: 32 word) = 2" by simp
  have t2: "replicate 2 (1 :: byte) = [1, 1]" by (simp add: numeral_2_eq_2)
  have c3: "portMemCopy ?A 0 ?S2 0 2 = Inr ?A'"
    by (simp add: portMemCopy_def t2)
  have mb: "merge_block 2147483649 lt 2 1 0 ?A ?S0 = Inr (?A', ?S2)"
    unfolding merge_block_def Let_def by (simp add: ml cr1 cr2 w c3 E0)
  have bl1: "block_loop 2147483649 lt 2 1 0 ?A ?S0 = Some (Inr (?A', ?S2))"
    by (subst block_loop.simps, simp add: mb) (subst block_loop.simps, simp)
  have bl2: "block_loop 2147483649 lt 2 2 0 ?A' ?S2 = Some (Inr (?A', ?S2))"
    by (subst block_loop.simps) simp
  have pl3: "pass_loop 2147483649 lt 2 4 ?A' ?S2 = Some (Inr (?A', ?S2))"
    by (subst pass_loop.simps) simp
  have pl2: "pass_loop 2147483649 lt 2 2 ?A' ?S2 = Some (Inr (?A', ?S2))"
    by (subst pass_loop.simps) (simp add: bl2 pl3)
  show ?thesis unfolding nvMergeSort_def
    by (subst pass_loop.simps) (simp add: bl1 pl2)
qed


text \<open>
  Claim C1, as stated for every array, fails where \<open>n * size\<close> does not fit 32 bits.  Two
  elements of \<open>2^31 + 1\<close> bytes, the first all \<open>2\<close> and the second all \<open>1\<close>, are compared by
  their last byte.  The merge writes both elements to the scratch buffer in ascending
  order, \<open>2^32 + 2\<close> bytes; the length of the copy back, \<^verbatim>\<open>(NvU32)(dest - mergeArray)\<close>, is
  \<open>2\<close>, so only two bytes of the array change and the two elements are returned out of
  order.
\<close>

theorem nvMergeSort_unsorted_counterexample:
  "length (replicate 2147483649 (2 :: byte) @ replicate 2147483649 1)
      = unat (2 :: 32 word) * unat (2147483649 :: 32 word)
   \<and> unat (2 :: 32 word) * unat (2147483649 :: 32 word) \<le> length (replicate 4294967298 (0 :: byte))
   \<and> strict_total_order_on
        (set (elems (unat (2147483649 :: 32 word)) (unat (2 :: 32 word))
               (replicate 2147483649 (2 :: byte) @ replicate 2147483649 1)))
        (\<lambda>a b. last a < last b)
   \<and> nvMergeSort (replicate 2147483649 2 @ replicate 2147483649 1) 2
        (replicate 4294967298 0) 2147483649 (\<lambda>a b. last a < last b)
      = Some (Inr (1 # 1 # replicate 2147483647 2 @ replicate 2147483649 1,
                   replicate 2147483649 1 @ replicate 2147483649 2))
   \<and> \<not> ascending (\<lambda>a b. last a < last b)
         (elems (unat (2147483649 :: 32 word)) (unat (2 :: 32 word))
            (1 # 1 # replicate 2147483647 (2 :: byte) @ replicate 2147483649 1))"
proof -
  let ?lt = "\<lambda>a b :: byte list. last a < last b"
  have two: "[0..<2] = [0, 1]" by (simp add: numeral_2_eq_2)
  have e: "elems 2147483649 2 (replicate 2147483649 (2 :: byte) @ replicate 2147483649 1)
            = [replicate 2147483649 2, replicate 2147483649 1]"
    by (simp add: elems_def two)
  have e': "elems 2147483649 2 (1 # 1 # replicate 2147483647 (2 :: byte) @ replicate 2147483649 1)
            = [1 # 1 # replicate 2147483647 2, replicate 2147483649 1]"
    using take_Cons_numeral drop_Cons_numeral by (simp add: elems_def two)
  have sto: "strict_total_order_on {replicate 2147483649 (2 :: byte), replicate 2147483649 1} ?lt"
    by (simp add: strict_total_order_on_def)
  have run: "nvMergeSort (replicate 2147483649 2 @ replicate 2147483649 1) 2
        (replicate 4294967298 0) 2147483649 ?lt
      = Some (Inr (1 # 1 # replicate 2147483647 2 @ replicate 2147483649 1,
                   replicate 2147483649 1 @ replicate 2147483649 2))"
    by (rule nvMergeSort_4GiB_run) simp
  have "\<not> ascending ?lt [1 # 1 # replicate 2147483647 2, replicate 2147483649 1]"
    unfolding ascending_def by (simp add: exI [of _ 0])
  then show ?thesis using e e' sto run by simp
qed


text \<open>
  Claim C1, amended.  For an array of \<open>n\<close> elements of \<open>size\<close> bytes with
  \<open>n * size < 2^32\<close>, a comparator that is a strict total order on the elements and a
  scratch buffer of at least \<open>n * size\<close> bytes: when \<^verbatim>\<open>nvMergeSort\<close> returns, no adjacent pair
  \<open>(a[i], a[i+1])\<close> of the array has \<open>less(a[i+1], a[i])\<close>; and it returns for \<open>n < 2^31\<close>.
\<close>

theorem nvMergeSort_ascending:
  assumes "length array = unat n * unat sz" and "unat n * unat sz < 2 ^ 32"
    and "unat n * unat sz \<le> length scratch"
    and "strict_total_order_on (set (elems (unat sz) (unat n) array)) lt"
  shows "(\<forall>array' scratch'. nvMergeSort array n scratch sz lt = Some (Inr (array', scratch'))
            \<longrightarrow> ascending lt (elems (unat sz) (unat n) array'))
       \<and> (unat n < 2 ^ 31
            \<longrightarrow> (\<exists>array' scratch'. nvMergeSort array n scratch sz lt = Some (Inr (array', scratch'))))"
proof (cases "unat n < 2 ^ 31")
  case True
  obtain a s where "nvMergeSort array n scratch sz lt = Some (Inr (a, s))"
    and "ascending lt (elems (unat sz) (unat n) a)"
    using nvMergeSort_sorts [OF assms(1,2) True assms(3,4)] by blast
  then show ?thesis by simp
next
  case False
  then have "2 ^ 31 \<le> unat n" by simp
  then show ?thesis using nvMergeSort_large_no_result [OF _ assms(1,3)] False by blast
qed

theorem nvMergeSort_ascending_witness:
  "length [3, 1, 2 :: byte] = unat (3 :: 32 word) * unat (1 :: 32 word)
   \<and> unat (3 :: 32 word) * unat (1 :: 32 word) < 2 ^ 32
   \<and> unat (3 :: 32 word) * unat (1 :: 32 word) \<le> length [0, 0, 0 :: byte]
   \<and> strict_total_order_on (set (elems (unat (1 :: 32 word)) (unat (3 :: 32 word)) [3, 1, 2 :: byte]))
        (\<lambda>a b. hd a < hd b)
   \<and> nvMergeSort [3, 1, 2] 3 [0, 0, 0] 1 (\<lambda>a b. hd a < hd b) = Some (Inr ([1, 2, 3], [1, 2, 3]))
   \<and> ascending (\<lambda>a b. hd a < hd b) (elems (unat (1 :: 32 word)) (unat (3 :: 32 word)) [1, 2, 3 :: byte])"
proof -
  let ?lt = "\<lambda>a b :: byte list. hd a < hd b"
  have h1: "length [3, 1, 2 :: byte] = unat (3 :: 32 word) * unat (1 :: 32 word)" by simp
  have h2: "unat (3 :: 32 word) * unat (1 :: 32 word) < 2 ^ 32" by simp
  have h3: "unat (3 :: 32 word) * unat (1 :: 32 word) \<le> length [0, 0, 0 :: byte]" by simp
  have h4: "strict_total_order_on
      (set (elems (unat (1 :: 32 word)) (unat (3 :: 32 word)) [3, 1, 2 :: byte])) ?lt"
    by code_simp
  have run: "nvMergeSort [3, 1, 2] 3 [0, 0, 0] 1 ?lt = Some (Inr ([1, 2, 3], [1, 2, 3]))"
    by code_simp
  have "ascending ?lt (elems (unat (1 :: 32 word)) (unat (3 :: 32 word)) [1, 2, 3 :: byte])"
    using nvMergeSort_ascending [OF h1 h2 h3 h4, THEN conjunct1] run by blast
  then show ?thesis using h1 h2 h3 h4 run by blast
qed

text \<open>
  Claim C2, as stated for every array, fails on the same two elements of \<open>2^31 + 1\<close> bytes,
  here compared by their first byte: the copy back of \<open>2\<close> bytes leaves an array whose
  first element starts with \<open>1, 1\<close> and goes on with \<open>2\<close>, which is none of the two
  elements of the array before the call.
\<close>

theorem nvMergeSort_not_permuted_counterexample:
  "length (replicate 2147483649 (2 :: byte) @ replicate 2147483649 1)
      = unat (2 :: 32 word) * unat (2147483649 :: 32 word)
   \<and> nvMergeSort (replicate 2147483649 2 @ replicate 2147483649 1) 2
        (replicate 4294967298 0) 2147483649 (\<lambda>a b. hd a < hd b)
      = Some (Inr (1 # 1 # replicate 2147483647 2 @ replicate 2147483649 1,
                   replicate 2147483649 1 @ replicate 2147483649 2))
   \<and> mset (elems (unat (2147483649 :: 32 word)) (unat (2 :: 32 word))
            (1 # 1 # replicate 2147483647 (2 :: byte) @ replicate 2147483649 1))
     \<noteq> mset (elems (unat (2147483649 :: 32 word)) (unat (2 :: 32 word))
            (replicate 2147483649 (2 :: byte) @ replicate 2147483649 1))"
proof -
  let ?lt = "\<lambda>a b :: byte list. hd a < hd b"
  let ?e0 = "replicate 2147483649 (2 :: byte)" and ?e1 = "replicate 2147483649 (1 :: byte)"
  let ?x = "1 # 1 # replicate 2147483647 (2 :: byte)"
  have two: "[0..<2] = [0, 1]" by (simp add: numeral_2_eq_2)
  have e: "elems 2147483649 2 (?e0 @ ?e1) = [?e0, ?e1]"
    by (simp add: elems_def two)
  have e': "elems 2147483649 2 (?x @ ?e1) = [?x, ?e1]"
    using take_Cons_numeral drop_Cons_numeral by (simp add: elems_def two)
  have run: "nvMergeSort (?e0 @ ?e1) 2 (replicate 4294967298 0) 2147483649 ?lt
      = Some (Inr (?x @ ?e1, replicate 2147483649 1 @ replicate 2147483649 2))"
    using nvMergeSort_4GiB_run [of ?lt] by simp
  have "hd ?x \<noteq> hd ?e0" and "last ?x \<noteq> last ?e1" by simp_all
  then have "?x \<noteq> ?e0" and "?x \<noteq> ?e1" by metis+
  then have "?x \<notin> set [?e0, ?e1]" by simp
  moreover have "?x \<in> set [?x, ?e1]" by simp
  ultimately have "mset [?x, ?e1] \<noteq> mset [?e0, ?e1]" by (metis set_mset_mset)
  then show ?thesis using e e' run by simp
qed

text \<open>
  Claim C2, amended.  For an array of \<open>n\<close> elements of \<open>size\<close> bytes with
  \<open>n * size < 2^32\<close>, every comparator and a scratch buffer of at least \<open>n * size\<close> bytes:
  when \<^verbatim>\<open>nvMergeSort\<close> returns, the multiset of the elements of the array is the one before
  the call; and it returns for \<open>n < 2^31\<close>.
\<close>

theorem nvMergeSort_permutation:
  assumes "length array = unat n * unat sz" and "unat n * unat sz < 2 ^ 32"
    and "unat n * unat sz \<le> length scratch"
  shows "(\<forall>array' scratch'. nvMergeSort array n scratch sz lt = Some (Inr (array', scratch'))
            \<longrightarrow> mset (elems (unat sz) (unat n) array') = mset (elems (unat sz) (unat n) array))
       \<and> (unat n < 2 ^ 31
            \<longrightarrow> (\<exists>array' scratch'. nvMergeSort array n scratch sz lt = Some (Inr (array', scratch'))))"
proof (cases "unat n < 2 ^ 31")
  case True
  obtain a s where "nvMergeSort array n scratch sz lt = Some (Inr (a, s))"
    and "mset (elems (unat sz) (unat n) a) = mset (elems (unat sz) (unat n) array)"
    using nvMergeSort_permutes [OF assms(1,2) True assms(3)] by blast
  then show ?thesis by simp
next
  case False
  then have "2 ^ 31 \<le> unat n" by simp
  then show ?thesis using nvMergeSort_large_no_result [OF _ assms(1,3)] False by blast
qed

theorem nvMergeSort_permutation_witness:
  "length [3, 1, 2, 1 :: byte] = unat (4 :: 32 word) * unat (1 :: 32 word)
   \<and> unat (4 :: 32 word) * unat (1 :: 32 word) < 2 ^ 32
   \<and> unat (4 :: 32 word) * unat (1 :: 32 word) \<le> length [0, 0, 0, 0, 7 :: byte]
   \<and> nvMergeSort [3, 1, 2, 1] 4 [0, 0, 0, 0, 7] 1 (\<lambda>a b. hd b < hd a)
        = Some (Inr ([3, 2, 1, 1], [3, 2, 1, 1, 7]))
   \<and> mset (elems (unat (1 :: 32 word)) (unat (4 :: 32 word)) [3, 2, 1, 1 :: byte])
       = mset (elems (unat (1 :: 32 word)) (unat (4 :: 32 word)) [3, 1, 2, 1 :: byte])"
proof -
  let ?lt = "\<lambda>a b :: byte list. hd b < hd a"
  have h1: "length [3, 1, 2, 1 :: byte] = unat (4 :: 32 word) * unat (1 :: 32 word)" by simp
  have h2: "unat (4 :: 32 word) * unat (1 :: 32 word) < 2 ^ 32" by simp
  have h3: "unat (4 :: 32 word) * unat (1 :: 32 word) \<le> length [0, 0, 0, 0, 7 :: byte]" by simp
  have run: "nvMergeSort [3, 1, 2, 1] 4 [0, 0, 0, 0, 7] 1 ?lt
      = Some (Inr ([3, 2, 1, 1], [3, 2, 1, 1, 7]))"
    by code_simp
  have "mset (elems (unat (1 :: 32 word)) (unat (4 :: 32 word)) [3, 2, 1, 1 :: byte])
       = mset (elems (unat (1 :: 32 word)) (unat (4 :: 32 word)) [3, 1, 2, 1 :: byte])"
    using nvMergeSort_permutation [OF h1 h2 h3, THEN conjunct1] run by blast
  then show ?thesis using h1 h2 h3 run by blast
qed

end
